theory Spec2Isabelle
  imports Main
begin

section \<open>Names, suffixes and the container classifier\<close>

text \<open>
  Go strings are byte sequences; a name is a \<open>string\<close> (a list of 8-bit characters).
  \<open>strings.ToLower\<close> is modelled on bytes: the letters \<open>A\<close> to \<open>Z\<close> are mapped to
  \<open>a\<close> to \<open>z\<close>, every other byte is kept. The suffixes tested by \<open>newDecompressor\<close>
  consist of ASCII characters only, and no rune outside ASCII lower-cases to one of
  their letters, so the suffix tests below agree with the source on every name.
\<close>

definition toLower_char :: "char \<Rightarrow> char" where
  "toLower_char c =
     (let n = (of_char c :: nat) in if 65 \<le> n \<and> n \<le> 90 then char_of (n + 32) else c)"

definition ToLower :: "string \<Rightarrow> string" where
  "ToLower s = map toLower_char s"

text \<open>\<open>strings.HasSuffix(s, suffix)\<close>: \<open>len(s) >= len(suffix) && s[len(s)-len(suffix):] == suffix\<close>.\<close>

definition HasSuffix :: "string \<Rightarrow> string \<Rightarrow> bool" where
  "HasSuffix s suf = (length suf \<le> length s \<and> drop (length s - length suf) s = suf)"

text \<open>\<open>hasSuffixes\<close> (lines 111--118): the first suffix that fits returns true.\<close>

fun hasSuffixes :: "string \<Rightarrow> string list \<Rightarrow> bool" where
  "hasSuffixes s [] = False"
| "hasSuffixes s (suf # rest) = (if HasSuffix s suf then True else hasSuffixes s rest)"

text \<open>
  The five function values \<open>newDecompressor\<close> can return: the no-op closure for plain tar,
  the gzip closure, the bzip2 closure, \<open>xzReader\<close> and \<open>zstdReader\<close>.
\<close>

datatype decompressor = Identity | Gzip | Bzip2 | Xz | Zstd

text \<open>
  \<open>newDecompressor\<close> (lines 86--109) returns the pair \<open>(zf, ok)\<close>; the \<open>nil\<close> function of the
  default case is \<open>None\<close>. The cases are tried in the order of the source's \<open>switch\<close>.
\<close>

definition newDecompressor :: "string \<Rightarrow> decompressor option \<times> bool" where
  "newDecompressor path =
     (let p = ToLower path in
      if hasSuffixes p [''.tar''] then (Some Identity, True)
      else if hasSuffixes p [''.tar.gz'', ''.tgz'', ''.taz''] then (Some Gzip, True)
      else if hasSuffixes p [''.tar.bz2'', ''.tar.bz'', ''.tbz'', ''.tbz2'', ''.tz2'', ''.tb2'']
        then (Some Bzip2, True)
      else if hasSuffixes p [''.tar.xz'', ''.txz''] then (Some Xz, True)
      else if hasSuffixes p [''.tar.zst'', ''.tzst'', ''.tar.zstd''] then (Some Zstd, True)
      else (None, False))"


text \<open>
  The suffixes named by the cases of \<open>newDecompressor\<close>, and what it means for a name to
  end in one of them whatever the case of its letters: the last characters of the name,
  as many as the suffix has, are the suffix once lower-cased.
\<close>

definition known_suffixes :: "string list" where
  "known_suffixes =
     [''.tar'', ''.tar.gz'', ''.tgz'', ''.taz'',
      ''.tar.bz2'', ''.tar.bz'', ''.tbz'', ''.tbz2'', ''.tz2'', ''.tb2'',
      ''.tar.xz'', ''.txz'', ''.tar.zst'', ''.tzst'', ''.tar.zstd'']"

definition ends_ci :: "string \<Rightarrow> string \<Rightarrow> bool" where
  "ends_ci name suf =
     (length suf \<le> length name \<and> ToLower (drop (length name - length suf) name) = suf)"

section \<open>Results, streams and the library calls made on them\<close>

type_synonym error = string

text \<open>\<open>Result\<close> (lines 31--34); a \<open>nil\<close> error is \<open>None\<close>.\<close>

record Result =
  Path :: "string list"
  Err :: "error option"

text \<open>
  The compiled pattern is used through \<open>MatchString\<close> only, so a \<open>regexp\<close> is the
  predicate it decides. \<open>TZgrep\<close> (lines 26--29) keeps it in \<open>exp\<close>; the channel \<open>Out\<close>
  is part of the dispatcher's state further down.
\<close>

type_synonym regexp = "string \<Rightarrow> bool"

definition MatchString :: "regexp \<Rightarrow> string \<Rightarrow> bool" where
  "MatchString re s = re s"

record TZgrep =
  exp :: regexp

text \<open>
  A stream is described by what the library calls that \<open>find\<close> makes on it return:
  \<^item> \<open>gzip_NewReader\<close>: the error of \<open>gzip.NewReader\<close> on it, if any;
  \<^item> \<open>cmd_Start\<close>: the error of \<open>cmd.StdoutPipe\<close> or \<open>cmd.Start\<close> in \<open>zCmdReader\<close>, if any;
  \<^item> \<open>tar_Next\<close>: the results of the successive calls of \<open>tr.Next()\<close> on the tar reader
    over the stream its decompressor returns: a header with the entry's name and the
    stream of the entry's content, an error other than \<open>io.EOF\<close>, or \<open>io.EOF\<close>.
    After the listed results every further call returns \<open>io.EOF\<close>.
  Nothing is assumed about these values: an error may be followed by further headers,
  so that what the loop does after an error is decided by the code and not by the data.
\<close>

datatype stream =
  Stream (gzip_NewReader: "error option") (cmd_Start: "error option") (tar_Next: "next list")
and "next" = Hdr string stream | ReadErr error | EOF

text \<open>
  The decompressors (lines 90--105, 120--140) return \<open>(r, err)\<close>. The no-op and the bzip2
  closures always return a \<open>nil\<close> error. On an error the gzip closure returns a closer
  around a \<open>nil\<close> \<open>*gzip.Reader\<close> and \<open>zCmdReader\<close> returns a \<open>nil\<close> interface: a reader that
  cannot be used, \<open>None\<close> here.
\<close>

definition zCmdReader :: "stream \<Rightarrow> stream option \<times> error option" where
  "zCmdReader r = (case cmd_Start r of Some e \<Rightarrow> (None, Some e) | None \<Rightarrow> (Some r, None))"

fun decompress :: "decompressor \<Rightarrow> stream \<Rightarrow> stream option \<times> error option" where
  "decompress Identity r = (Some r, None)"
| "decompress Gzip r =
     (case gzip_NewReader r of Some e \<Rightarrow> (None, Some e) | None \<Rightarrow> (Some r, None))"
| "decompress Bzip2 r = (Some r, None)"
| "decompress Xz r = zCmdReader r"
| "decompress Zstd r = zCmdReader r"

section \<open>The recursive descent\<close>

text \<open>
  A call of \<open>find\<close> either returns or panics; a panic is not recovered anywhere in the
  program. What a call does is the list of its events in order: \<open>Call d path\<close> records
  that \<open>find\<close> was entered with the chain \<open>path\<close>, \<open>Send d r\<close> that \<open>r\<close> was sent on
  \<open>tz.Out\<close>. The number \<open>d\<close> is a ghost counter, the number of tar readers the stream is
  nested in (0 for a root); it labels the events and decides nothing.
\<close>

datatype status = Returned | Panicked

datatype event = Call nat "string list" | Send nat Result

text \<open>
  \<open>find\<close> (lines 61--82) and its loop over the tar entries (lines 75--81).
  \<^item> \<open>path[len(path)-1]\<close> panics on an empty chain.
  \<^item> After a failed decompressor the code sends the failure and goes on (there is no
    \<open>return\<close> after line 71): \<open>defer r.Close()\<close> on the \<open>nil\<close> interface, or the first read
    of \<open>tr.Next()\<close> through the \<open>nil\<close> \<open>*gzip.Reader\<close>, panics.
  \<^item> \<open>append(path[:len(path):len(path)], h.Name)\<close> is the chain extended by one name; its
    storage is the subject of \<open>extend\<close> below.
  \<^item> A panic of a recursive call ends the loop and the caller with it.
  \<^item> The deferred \<open>Close\<close> calls send nothing and are taken to return (for \<open>xz\<close> and
    \<open>zstd\<close>, \<open>Close\<close> is \<open>cmd.Wait()\<close>, which returns when the process has exited); they
    are left out.
\<close>

function find :: "TZgrep \<Rightarrow> nat \<Rightarrow> stream \<Rightarrow> string list \<Rightarrow> event list \<times> status"
  and find_loop :: "TZgrep \<Rightarrow> nat \<Rightarrow> next list \<Rightarrow> string list \<Rightarrow> event list \<times> status"
where
  "find tz d zr path =
     (if path = [] then ([Call d path], Panicked)
      else
        let name = last path;
            hit = (if MatchString (exp tz) name
                   then [Send d \<lparr>Path = path, Err = None\<rparr>] else [])
        in case newDecompressor name of
             (zf, isTar) \<Rightarrow>
               if \<not> isTar then (Call d path # hit, Returned)
               else
                 (case zf of
                    None \<Rightarrow> (Call d path # hit, Panicked)
                  | Some f \<Rightarrow>
                      (case decompress f zr of
                         (r, err) \<Rightarrow>
                           let bad = (case err of
                                        None \<Rightarrow> []
                                      | Some e \<Rightarrow> [Send d \<lparr>Path = path, Err = Some e\<rparr>])
                           in (case r of
                                 None \<Rightarrow> (Call d path # hit @ bad, Panicked)
                               | Some s \<Rightarrow>
                                   (case find_loop tz d (tar_Next s) path of
                                      (evs, st) \<Rightarrow> (Call d path # hit @ bad @ evs, st))))))"
| "find_loop tz d [] path = ([], Returned)"
| "find_loop tz d (EOF # rest) path = ([], Returned)"
| "find_loop tz d (ReadErr e # rest) path = ([Send d \<lparr>Path = path, Err = Some e\<rparr>], Returned)"
| "find_loop tz d (Hdr n c # rest) path =
     (case find tz (Suc d) c (path @ [n]) of
        (evs, Panicked) \<Rightarrow> (evs, Panicked)
      | (evs, Returned) \<Rightarrow>
          (case find_loop tz d rest path of (evs', st) \<Rightarrow> (evs @ evs', st)))"
  by pat_completeness auto
termination
proof (relation "measure (\<lambda>x. case x of
          Inl (tz, d, zr, path) \<Rightarrow> size zr
        | Inr (tz, d, ns, path) \<Rightarrow> size_list size ns)")
  show "wf (measure (\<lambda>x. case x of
          Inl (tz, d, zr, path) \<Rightarrow> size zr
        | Inr (tz, d, ns, path) \<Rightarrow> size_list size ns))"
    by simp
next
  fix tz :: TZgrep and d :: nat and zr :: stream and path :: "string list"
    and f :: decompressor and r :: "stream option" and err :: "error option" and s :: stream
  assume "(r, err) = decompress f zr" and "r = Some s"
  then have "s = zr"
    by (cases f) (auto simp: zCmdReader_def split: option.splits)
  then show "(Inr (tz, d, tar_Next s, path), Inl (tz, d, zr, path))
      \<in> measure (\<lambda>x. case x of
          Inl (tz, d, zr, path) \<Rightarrow> size zr
        | Inr (tz, d, ns, path) \<Rightarrow> size_list size ns)"
    by (cases zr) simp
qed simp_all

text \<open>
  The file system is what \<open>os.Open\<close> returns for a path: the pair \<open>(f, err)\<close>. When the open
  fails, \<open>f\<close> is the \<open>nil\<close> \<open>*os.File\<close>; the stream of the pair then says what the library
  calls made through that \<open>nil\<close> file return.
\<close>

type_synonym filesystem = "string \<Rightarrow> stream \<times> error option"

definition os_Open :: "filesystem \<Rightarrow> string \<Rightarrow> stream \<times> error option" where
  "os_Open fs path = fs path"

text \<open>
  \<open>findPath\<close> (lines 52--59). There is no \<open>return\<close> after the send of line 55, so \<open>find\<close>
  is called on the \<open>nil\<close> file as well.
\<close>

definition findPath :: "TZgrep \<Rightarrow> filesystem \<Rightarrow> string \<Rightarrow> event list \<times> status" where
  "findPath tz fs path =
     (case os_Open fs path of
        (f, err) \<Rightarrow>
          let bad = (case err of
                       None \<Rightarrow> []
                     | Some e \<Rightarrow> [Send 0 \<lparr>Path = [path], Err = Some e\<rparr>])
          in (case find tz 0 f [path] of (evs, st) \<Rightarrow> (bad @ evs, st)))"

text \<open>The Results sent and the chains visited, in order.\<close>

fun sent :: "event list \<Rightarrow> Result list" where
  "sent [] = []"
| "sent (Send d r # evs) = r # sent evs"
| "sent (Call d p # evs) = sent evs"

fun visited :: "event list \<Rightarrow> string list list" where
  "visited [] = []"
| "visited (Call d p # evs) = p # visited evs"
| "visited (Send d r # evs) = visited evs"


section \<open>The root dispatcher\<close>

text \<open>
  \<open>Start\<close> (lines 36--50) adds the number of roots to a wait group, launches one
  goroutine that waits for the counter to reach zero and then closes \<open>tz.Out\<close>, and one
  goroutine per root that runs \<open>findPath\<close> and then calls \<open>wg.Done()\<close>. The goroutines
  share nothing but the channel and the wait group, so a root's goroutine is the list
  of Results it has still to send and the way its \<open>findPath\<close> ends.
\<close>

datatype goroutine = Running "Result list" status | Finished

record state =
  workers :: "goroutine list"
  wg :: int
  closer :: bool
  closes :: nat
  out :: "Result list"
  crashed :: bool

text \<open>
  \<open>closer\<close> holds while the goroutine of lines 39--42 has not called \<open>close\<close>; \<open>closes\<close>
  counts the calls of \<open>close(tz.Out)\<close>; \<open>out\<close> is what the consumer has received; \<open>crashed\<close>
  holds once a goroutine has panicked, which ends the program.
\<close>

definition spawn :: "event list \<times> status \<Rightarrow> goroutine" where
  "spawn b = Running (sent (fst b)) (snd b)"

definition Start :: "TZgrep \<Rightarrow> filesystem \<Rightarrow> string list \<Rightarrow> state" where
  "Start tz fs paths =
     \<lparr>workers = map (\<lambda>p. spawn (findPath tz fs p)) paths,
      wg = int (length paths),
      closer = True, closes = 0, out = [], crashed = False\<rparr>"

text \<open>
  One step of one goroutine. A send on a closed channel panics, as does \<open>wg.Done()\<close> on
  a counter that is not positive; the consumer is always ready to receive.
\<close>

inductive step :: "state \<Rightarrow> state \<Rightarrow> bool" where
  send:
    "\<not> crashed s \<Longrightarrow> i < length (workers s) \<Longrightarrow> workers s ! i = Running (r # rs) st \<Longrightarrow>
     closes s = 0 \<Longrightarrow>
     step s (s\<lparr>workers := (workers s)[i := Running rs st], out := out s @ [r]\<rparr>)"
| send_closed:
    "\<not> crashed s \<Longrightarrow> i < length (workers s) \<Longrightarrow> workers s ! i = Running (r # rs) st \<Longrightarrow>
     0 < closes s \<Longrightarrow>
     step s (s\<lparr>crashed := True\<rparr>)"
| panic:
    "\<not> crashed s \<Longrightarrow> i < length (workers s) \<Longrightarrow> workers s ! i = Running [] Panicked \<Longrightarrow>
     step s (s\<lparr>crashed := True\<rparr>)"
| wg_Done:
    "\<not> crashed s \<Longrightarrow> i < length (workers s) \<Longrightarrow> workers s ! i = Running [] Returned \<Longrightarrow>
     0 < wg s \<Longrightarrow>
     step s (s\<lparr>workers := (workers s)[i := Finished], wg := wg s - 1\<rparr>)"
| wg_Done_negative:
    "\<not> crashed s \<Longrightarrow> i < length (workers s) \<Longrightarrow> workers s ! i = Running [] Returned \<Longrightarrow>
     wg s \<le> 0 \<Longrightarrow>
     step s (s\<lparr>crashed := True\<rparr>)"
| close_Out:
    "\<not> crashed s \<Longrightarrow> closer s \<Longrightarrow> wg s = 0 \<Longrightarrow>
     step s (s\<lparr>closer := False, closes := closes s + 1\<rparr>)"

definition reachable :: "state \<Rightarrow> state \<Rightarrow> bool" where
  "reachable s s' = step\<^sup>*\<^sup>* s s'"

definition stuck :: "state \<Rightarrow> bool" where
  "stuck s = (\<nexists>s'. step s s')"


section \<open>Notions used in the statements\<close>

text \<open>The events of lines 62--64: the match Result, sent when the last name matches.\<close>

definition matched :: "TZgrep \<Rightarrow> nat \<Rightarrow> string list \<Rightarrow> event list" where
  "matched tz d path =
     (if MatchString (exp tz) (last path) then [Send d \<lparr>Path = path, Err = None\<rparr>] else [])"

text \<open>
  What a set of roots sends and visits: the Results and the chains of the descents of
  its roots.
\<close>

definition emitted :: "TZgrep \<Rightarrow> filesystem \<Rightarrow> string list \<Rightarrow> Result set" where
  "emitted tz fs paths = (\<Union>p \<in> set paths. set (sent (fst (findPath tz fs p))))"

definition nodes_visited :: "TZgrep \<Rightarrow> filesystem \<Rightarrow> string list \<Rightarrow> string list set" where
  "nodes_visited tz fs paths = (\<Union>p \<in> set paths. set (visited (fst (findPath tz fs p))))"

text \<open>
  Tar entries as results of \<open>tr.Next()\<close>, and the events of the recursive calls made for
  a list of entries of the container with chain \<open>path\<close>.
\<close>

definition headers :: "(string \<times> stream) list \<Rightarrow> next list" where
  "headers es = map (\<lambda>(n, c). Hdr n c) es"

definition descents :: "TZgrep \<Rightarrow> nat \<Rightarrow> string list \<Rightarrow> (string \<times> stream) list \<Rightarrow> event list" where
  "descents tz d path es = concat (map (\<lambda>(n, c). fst (find tz (Suc d) c (path @ [n]))) es)"

definition all_return :: "TZgrep \<Rightarrow> nat \<Rightarrow> string list \<Rightarrow> (string \<times> stream) list \<Rightarrow> bool" where
  "all_return tz d path es =
     list_all (\<lambda>(n, c). snd (find tz (Suc d) c (path @ [n])) = Returned) es"

text \<open>The failure Results tagged with a given chain.\<close>

definition failures_at :: "string list \<Rightarrow> event list \<Rightarrow> Result list" where
  "failures_at path evs = filter (\<lambda>r. Path r = path \<and> Err r \<noteq> None) (sent evs)"

text \<open>
  The chain and the depth an event carries. \<open>extends d path ev\<close>: the chain of the event
  begins with \<open>path\<close> and has as many names more as the event's depth exceeds \<open>d\<close>.
\<close>

fun chain :: "event \<Rightarrow> string list" where
  "chain (Call k c) = c"
| "chain (Send k r) = Path r"

fun depth :: "event \<Rightarrow> nat" where
  "depth (Call k c) = k"
| "depth (Send k r) = k"

definition extends :: "nat \<Rightarrow> string list \<Rightarrow> event \<Rightarrow> bool" where
  "extends d path ev =
     (length path \<le> length (chain ev) \<and> take (length path) (chain ev) = path
      \<and> depth ev = d + (length (chain ev) - length path))"

section \<open>The storage of a chain\<close>

text \<open>
  A Go slice is a window, from index 0 here, on a backing array: the array, the length
  and the capacity. The heap is the list of the arrays allocated so far, an array's
  address being its index. \<open>elems\<close> reads a slice.
\<close>

record slice =
  arr :: nat
  len :: nat
  cap :: nat

type_synonym heap = "string list list"

definition elems :: "heap \<Rightarrow> slice \<Rightarrow> string list" where
  "elems h s = take (len s) (h ! arr s)"

definition valid_slice :: "heap \<Rightarrow> slice \<Rightarrow> bool" where
  "valid_slice h s = (arr s < length h \<and> len s \<le> cap s \<and> cap s \<le> length (h ! arr s))"

text \<open>The slice literal \<open>[]string{path}\<close> of lines 55 and 58: a new array of one element.\<close>

definition new_chain :: "heap \<Rightarrow> string \<Rightarrow> heap \<times> slice" where
  "new_chain h x = (h @ [[x]], \<lparr>arr = length h, len = 1, cap = 1\<rparr>)"

text \<open>The full slice expression \<open>s[:high:max]\<close>; out of range it panics (\<open>None\<close>).\<close>

definition slice3 :: "slice \<Rightarrow> nat \<Rightarrow> nat \<Rightarrow> slice option" where
  "slice3 s high limit =
     (if high \<le> limit \<and> limit \<le> cap s then Some (s\<lparr>len := high, cap := limit\<rparr>)
      else None)"

text \<open>
  \<open>append(s, x)\<close>: with spare capacity the element is written into the backing array of
  \<open>s\<close>; without, a new array is allocated, the elements are copied and \<open>x\<close> is added.
  \<open>spare\<close> is the room the runtime leaves in the new array.
\<close>

definition append1 :: "nat \<Rightarrow> heap \<Rightarrow> slice \<Rightarrow> string \<Rightarrow> heap \<times> slice" where
  "append1 spare h s x =
     (if len s < cap s
      then (h[arr s := (h ! arr s)[len s := x]], s\<lparr>len := Suc (len s)\<rparr>)
      else (h @ [take (len s) (h ! arr s) @ x # replicate spare []],
            \<lparr>arr = length h, len = Suc (len s), cap = Suc (len s) + spare\<rparr>))"

text \<open>Line 80: \<open>append(path[:len(path):len(path)], h.Name)\<close>.\<close>

definition extend :: "nat \<Rightarrow> heap \<Rightarrow> slice \<Rightarrow> string \<Rightarrow> (heap \<times> slice) option" where
  "extend spare h path name =
     (case slice3 path (len path) (len path) of
        None \<Rightarrow> None
      | Some p \<Rightarrow> Some (append1 spare h p name))"

section \<open>An invariant of the dispatcher's runs\<close>

fun pending :: "goroutine \<Rightarrow> Result list" where
  "pending (Running rs st) = rs"
| "pending Finished = []"

text \<open>
  \<open>ws\<close> are the goroutines as launched. Every goroutine has sent a prefix of its Results
  and keeps the rest, or has finished after sending all of them; nothing else was
  sent; the counter is the number of goroutines that have not finished; the channel is
  closed when, and only when, the closing goroutine has run, which needs the counter
  at zero; and a crash comes from a goroutine that panics.
\<close>

definition run_inv :: "goroutine list \<Rightarrow> state \<Rightarrow> bool" where
  "run_inv ws s \<longleftrightarrow>
     length (workers s) = length ws
     \<and> (\<forall>i < length ws. \<exists>rs0 st. ws ! i = Running rs0 st
           \<and> (workers s ! i = Finished \<and> st = Returned \<and> set rs0 \<subseteq> set (out s)
              \<or> (\<exists>pre rs. workers s ! i = Running rs st \<and> rs0 = pre @ rs
                    \<and> set pre \<subseteq> set (out s))))
     \<and> set (out s) \<subseteq> (\<Union>g \<in> set ws. set (pending g))
     \<and> wg s = int (length (filter (\<lambda>g. g \<noteq> Finished) (workers s)))
     \<and> closes s = (if closer s then 0 else 1)
     \<and> (\<not> closer s \<longrightarrow> wg s = 0)
     \<and> (crashed s \<longrightarrow> (\<exists>i < length (workers s). \<exists>rs. workers s ! i = Running rs Panicked))"

text \<open>What is left to do in a state: every step makes it less, so every run ends.\<close>

fun work :: "goroutine \<Rightarrow> nat" where
  "work (Running rs st) = Suc (length rs)"
| "work Finished = 0"

definition todo :: "state \<Rightarrow> nat" where
  "todo s = (if crashed s then 0
             else Suc ((if closer s then 1 else 0) + sum_list (map work (workers s))))"

section \<open>Files and patterns used as examples\<close>

text \<open>
  The pattern \<open>y\<close> matches the names that contain the letter; the pattern \<open>m\<close> likewise;
  \<open>no_match\<close> matches nothing.
\<close>

definition pattern_y :: TZgrep where
  "pattern_y = \<lparr>exp = (\<lambda>name. CHR ''y'' \<in> set name)\<rparr>"

definition pattern_m :: TZgrep where
  "pattern_m = \<lparr>exp = (\<lambda>name. CHR ''m'' \<in> set name)\<rparr>"

definition no_match :: TZgrep where
  "no_match = \<lparr>exp = (\<lambda>name. False)\<rparr>"

text \<open>
  \<open>plain\<close> is an ordinary file: no gzip stream and no tar stream. \<open>a_tar\<close> is the archive
  of the spec's scenario B: \<open>x.txt\<close> and \<open>inner.tar.gz\<close>, which holds \<open>y.txt\<close>. \<open>bad_gzip\<close> is
  the file of scenario C, which \<open>gzip.NewReader\<close> rejects. \<open>broken_tar\<close> has a corrupt
  header after its first entry. \<open>nil_file\<close> is the \<open>nil\<close> \<open>*os.File\<close> left by a failed
  \<open>os.Open\<close>: every read through it fails with \<open>os.ErrInvalid\<close>, for the tar reader as for
  \<open>gzip.NewReader\<close>. It describes the \<open>nil\<close> file read in process, so \<open>disk\<close> is meant for
  missing roots whose suffix selects no external decompressor.
\<close>

definition plain :: stream where
  "plain = Stream (Some ''gzip: invalid header'') None [ReadErr ''unexpected EOF'']"

definition inner_tar_gz :: stream where
  "inner_tar_gz = Stream None None [Hdr ''y.txt'' plain]"

definition a_tar :: stream where
  "a_tar = Stream (Some ''gzip: invalid header'') None
     [Hdr ''x.txt'' plain, Hdr ''inner.tar.gz'' inner_tar_gz]"

definition bad_gzip :: stream where
  "bad_gzip = Stream (Some ''gzip: invalid header'') None []"

definition broken_tar :: stream where
  "broken_tar = Stream (Some ''gzip: invalid header'') None
     [Hdr ''x.txt'' plain, ReadErr ''archive/tar: invalid tar header'', Hdr ''lost.txt'' plain]"

definition nil_file :: stream where
  "nil_file = Stream (Some ''invalid argument'') None [ReadErr ''invalid argument'']"

definition disk :: filesystem where
  "disk p =
     (if p = ''a.tar'' then (a_tar, None)
      else if p = ''bad.tar.gz'' then (bad_gzip, None)
      else if p = ''broken.tar'' then (broken_tar, None)
      else if p = ''leaf.txt'' then (plain, None)
      else (nil_file, Some (''open '' @ p @ '': no such file or directory'')))"

section \<open>Facts about names and suffixes\<close>

lemma ends_ci_HasSuffix: "ends_ci name suf = HasSuffix (ToLower name) suf"
  by (simp add: ends_ci_def HasSuffix_def ToLower_def drop_map)

lemma HasSuffix_iff: "HasSuffix s suf \<longleftrightarrow> (\<exists>pre. s = pre @ suf)"
  unfolding HasSuffix_def
  by (metis append_eq_conv_conj append_take_drop_id diff_add_inverse2 le_add2
      length_append length_drop)

lemma ends_ci_split: "ends_ci name suf \<Longrightarrow> \<exists>pre. ToLower name = pre @ suf"
  by (simp add: ends_ci_HasSuffix HasSuffix_iff)

lemma classify_gzip:
  assumes "ends_ci name ''.tar.gz'' \<or> ends_ci name ''.tgz'' \<or> ends_ci name ''.taz''"
  shows "newDecompressor name = (Some Gzip, True)"
  using assms by (auto dest!: ends_ci_split simp: newDecompressor_def HasSuffix_def)

lemma classify_tar:
  assumes "ends_ci name ''.tar''"
  shows "newDecompressor name = (Some Identity, True)"
  using assms by (auto dest!: ends_ci_split simp: newDecompressor_def HasSuffix_def)

lemma classify_none:
  assumes "\<forall>k \<in> set known_suffixes. \<not> ends_ci name k"
  shows "newDecompressor name = (None, False)"
  using assms by (simp add: known_suffixes_def ends_ci_HasSuffix newDecompressor_def)

lemma classify_same_lower: "ToLower a = ToLower b \<Longrightarrow> newDecompressor a = newDecompressor b"
  by (simp add: newDecompressor_def)

section \<open>The container classifier\<close>

text \<open>
  Claim C6. The classification is a function of the lower-cased name alone. A name that
  ends, whatever the case of its letters, in \<open>.tar.gz\<close>, \<open>.tgz\<close> or \<open>.taz\<close> gets the gzip
  decompressor and \<open>isContainer = true\<close>; one that ends in \<open>.tar\<close> gets the no-op
  decompressor and \<open>true\<close>; one that ends in none of the suffixes of the table gets
  \<open>(nil, false)\<close>; and two names that differ only in the case of their letters are
  classified alike.
\<close>

theorem newDecompressor_by_suffix:
  "(ends_ci name ''.tar.gz'' \<or> ends_ci name ''.tgz'' \<or> ends_ci name ''.taz''
      \<longrightarrow> newDecompressor name = (Some Gzip, True))
   \<and> (ends_ci name ''.tar'' \<longrightarrow> newDecompressor name = (Some Identity, True))
   \<and> ((\<forall>k \<in> set known_suffixes. \<not> ends_ci name k) \<longrightarrow> newDecompressor name = (None, False))
   \<and> (ToLower a = ToLower b \<longrightarrow> newDecompressor a = newDecompressor b)"
proof (intro conjI impI)
  assume "ends_ci name ''.tar.gz'' \<or> ends_ci name ''.tgz'' \<or> ends_ci name ''.taz''"
  then show "newDecompressor name = (Some Gzip, True)" by (rule classify_gzip)
next
  assume "ends_ci name ''.tar''"
  then show "newDecompressor name = (Some Identity, True)" by (rule classify_tar)
next
  assume "\<forall>k \<in> set known_suffixes. \<not> ends_ci name k"
  then show "newDecompressor name = (None, False)" by (rule classify_none)
next
  assume "ToLower a = ToLower b"
  then show "newDecompressor a = newDecompressor b" by (rule classify_same_lower)
qed

theorem newDecompressor_by_suffix_witness:
  "ends_ci ''Backup.TAR.GZ'' ''.tar.gz'' \<and> newDecompressor ''Backup.TAR.GZ'' = (Some Gzip, True)
   \<and> ends_ci ''old.Tgz'' ''.tgz'' \<and> newDecompressor ''old.Tgz'' = (Some Gzip, True)
   \<and> ends_ci ''x.taZ'' ''.taz'' \<and> newDecompressor ''x.taZ'' = (Some Gzip, True)
   \<and> ends_ci ''a.Tar'' ''.tar'' \<and> newDecompressor ''a.Tar'' = (Some Identity, True)
   \<and> list_all (\<lambda>k. \<not> ends_ci ''notes.txt'' k) known_suffixes
   \<and> newDecompressor ''notes.txt'' = (None, False)
   \<and> ToLower ''A.TBZ2'' = ToLower ''a.tbz2''
   \<and> newDecompressor ''A.TBZ2'' = newDecompressor ''a.tbz2''"
proof -
  have g1: "ends_ci ''Backup.TAR.GZ'' ''.tar.gz''" by code_simp
  have g2: "ends_ci ''old.Tgz'' ''.tgz''" by code_simp
  have g3: "ends_ci ''x.taZ'' ''.taz''" by code_simp
  have t: "ends_ci ''a.Tar'' ''.tar''" by code_simp
  have n: "list_all (\<lambda>k. \<not> ends_ci ''notes.txt'' k) known_suffixes" by code_simp
  have n': "\<forall>k \<in> set known_suffixes. \<not> ends_ci ''notes.txt'' k"
    using n by (simp add: list_all_iff)
  have c: "ToLower ''A.TBZ2'' = ToLower ''a.tbz2''" by code_simp
  show ?thesis
    using g1 g2 g3 t n n' c
      newDecompressor_by_suffix [of "''Backup.TAR.GZ''" "''A.TBZ2''" "''a.tbz2''"]
      newDecompressor_by_suffix [of "''old.Tgz''" "''A.TBZ2''" "''a.tbz2''"]
      newDecompressor_by_suffix [of "''x.taZ''" "''A.TBZ2''" "''a.tbz2''"]
      newDecompressor_by_suffix [of "''a.Tar''" "''A.TBZ2''" "''a.tbz2''"]
      newDecompressor_by_suffix [of "''notes.txt''" "''A.TBZ2''" "''a.tbz2''"]
    by blast
qed

text \<open>
  Claim C9. The classifier also accepts, whatever the case of the letters, the suffix
  \<open>.tar.bz\<close>, with the bzip2 decompressor, and the suffix \<open>.tar.zstd\<close>, with the zstd
  decompressor, both with \<open>isContainer = true\<close>.
\<close>

theorem newDecompressor_tar_bz_tar_zstd:
  "(ends_ci name ''.tar.bz'' \<longrightarrow> newDecompressor name = (Some Bzip2, True))
   \<and> (ends_ci name ''.tar.zstd'' \<longrightarrow> newDecompressor name = (Some Zstd, True))"
  by (auto dest!: ends_ci_split simp: newDecompressor_def HasSuffix_def)

theorem newDecompressor_tar_bz_tar_zstd_witness:
  "ends_ci ''logs.Tar.BZ'' ''.tar.bz'' \<and> newDecompressor ''logs.Tar.BZ'' = (Some Bzip2, True)
   \<and> ends_ci ''img.TAR.zstd'' ''.tar.zstd'' \<and> newDecompressor ''img.TAR.zstd'' = (Some Zstd, True)"
proof -
  have b: "ends_ci ''logs.Tar.BZ'' ''.tar.bz''" by code_simp
  have z: "ends_ci ''img.TAR.zstd'' ''.tar.zstd''" by code_simp
  show ?thesis
    using b z newDecompressor_tar_bz_tar_zstd [of "''logs.Tar.BZ''"]
      newDecompressor_tar_bz_tar_zstd [of "''img.TAR.zstd''"]
    by blast
qed


section \<open>Facts about the descent\<close>

lemma sent_append: "sent (xs @ ys) = sent xs @ sent ys"
  by (induction xs rule: sent.induct) simp_all

lemma visited_append: "visited (xs @ ys) = visited xs @ visited ys"
  by (induction xs rule: visited.induct) simp_all

lemma sent_iff: "r \<in> set (sent evs) \<longleftrightarrow> (\<exists>k. Send k r \<in> set evs)"
  by (induction evs rule: sent.induct) auto

lemma visited_iff: "c \<in> set (visited evs) \<longleftrightarrow> (\<exists>k. Call k c \<in> set evs)"
  by (induction evs rule: visited.induct) auto

lemma decompress_cases:
  "decompress f zr = (Some zr, None) \<or> (\<exists>e. decompress f zr = (None, Some e))"
  by (cases f) (auto simp: zCmdReader_def split: option.splits)

lemma newDecompressor_fn: "newDecompressor name = (zf, True) \<Longrightarrow> zf \<noteq> None"
  by (auto simp: newDecompressor_def Let_def split: if_splits)

lemma find_empty: "find tz d zr [] = ([Call d []], Panicked)"
  by simp

lemma find_leaf:
  "path \<noteq> [] \<Longrightarrow> \<not> snd (newDecompressor (last path)) \<Longrightarrow>
   find tz d zr path = (Call d path # matched tz d path, Returned)"
  by (cases "newDecompressor (last path)") (simp add: Let_def matched_def)

lemma find_failed:
  "path \<noteq> [] \<Longrightarrow> newDecompressor (last path) = (Some f, True) \<Longrightarrow>
   decompress f zr = (None, Some e) \<Longrightarrow>
   find tz d zr path =
     (Call d path # matched tz d path @ [Send d \<lparr>Path = path, Err = Some e\<rparr>], Panicked)"
  by (simp add: Let_def matched_def)

lemma find_container:
  "path \<noteq> [] \<Longrightarrow> newDecompressor (last path) = (Some f, True) \<Longrightarrow>
   decompress f zr = (Some zr, None) \<Longrightarrow>
   find tz d zr path =
     (Call d path # matched tz d path @ fst (find_loop tz d (tar_Next zr) path),
      snd (find_loop tz d (tar_Next zr) path))"
  by (simp add: Let_def matched_def split: prod.splits)

lemma find_loop_Hdr:
  "find_loop tz d (Hdr n c # rest) path =
     (if snd (find tz (Suc d) c (path @ [n])) = Panicked
      then (fst (find tz (Suc d) c (path @ [n])), Panicked)
      else (fst (find tz (Suc d) c (path @ [n])) @ fst (find_loop tz d rest path),
            snd (find_loop tz d rest path)))"
  by (auto split: prod.splits status.splits)

text \<open>The three ways a call of \<open>find\<close> on a chain that is not empty can go.\<close>

lemma find_shapes:
  assumes "path \<noteq> []"
  obtains
    (leaf) "\<not> snd (newDecompressor (last path))"
      "find tz d zr path = (Call d path # matched tz d path, Returned)"
  | (failed) f e where "newDecompressor (last path) = (Some f, True)"
      "decompress f zr = (None, Some e)"
      "find tz d zr path =
         (Call d path # matched tz d path @ [Send d \<lparr>Path = path, Err = Some e\<rparr>], Panicked)"
  | (container) f where "newDecompressor (last path) = (Some f, True)"
      "decompress f zr = (Some zr, None)"
      "find tz d zr path =
        (Call d path # matched tz d path @ fst (find_loop tz d (tar_Next zr) path),
         snd (find_loop tz d (tar_Next zr) path))"
proof (cases "snd (newDecompressor (last path))")
  case False
  then show ?thesis using leaf find_leaf [OF assms] by blast
next
  case True
  then obtain zf where z: "newDecompressor (last path) = (zf, True)"
    by (cases "newDecompressor (last path)") auto
  then obtain f where f: "zf = Some f" using newDecompressor_fn by fastforce
  from decompress_cases [of f zr] show ?thesis
  proof
    assume "decompress f zr = (Some zr, None)"
    then show ?thesis using container find_container [OF assms] z f by blast
  next
    assume "\<exists>e. decompress f zr = (None, Some e)"
    then show ?thesis using failed find_failed [OF assms] z f by blast
  qed
qed

declare find.simps [simp del] find_loop.simps(4) [simp del]

lemma returned_or_panicked: "st \<noteq> Panicked \<Longrightarrow> st = Returned"
  by (cases st) auto

text \<open>A Result without an error is sent only for a chain whose last name matches.\<close>

lemma find_sound:
  shows "path \<noteq> [] \<Longrightarrow>
           \<forall>r \<in> set (sent (fst (find tz d zr path))).
              Err r = None \<longrightarrow> MatchString (exp tz) (last (Path r))"
    and "\<forall>r \<in> set (sent (fst (find_loop tz d ns path))).
              Err r = None \<longrightarrow> MatchString (exp tz) (last (Path r))"
proof (induction tz d zr path and tz d ns path rule: find_find_loop.induct)
  case (1 tz d zr path)
  have m: "\<forall>r \<in> set (sent (matched tz d path)).
             Err r = None \<longrightarrow> MatchString (exp tz) (last (Path r))"
    by (simp add: matched_def)
  from \<open>path \<noteq> []\<close> show ?case
  proof (cases rule: find_shapes [where tz = tz and d = d and zr = zr])
    case leaf
    then show ?thesis using m by simp
  next
    case (failed f e)
    then show ?thesis using m by (auto simp: sent_append)
  next
    case (container f)
    note IH = "1.IH" [OF \<open>path \<noteq> []\<close> refl refl container(1) [symmetric] _ refl
        container(2) [symmetric] refl refl]
    show ?thesis using container(3) m IH by (auto simp: sent_append)
  qed
next
  case (5 tz d n c rest path)
  show ?case
  proof (cases "snd (find tz (Suc d) c (path @ [n])) = Panicked")
    case True
    then show ?thesis using "5.IH"(1) by (simp add: find_loop_Hdr)
  next
    case False
    then have "(fst (find tz (Suc d) c (path @ [n])), Returned) = find tz (Suc d) c (path @ [n])"
      using returned_or_panicked by (metis prod.collapse)
    note IH2 = "5.IH"(2) [OF this refl]
    show ?thesis using False "5.IH"(1) IH2 by (auto simp: find_loop_Hdr sent_append)
  qed
qed simp_all


text \<open>Every chain visited whose last name matches has its match Result sent.\<close>

lemma find_complete:
  shows "path \<noteq> [] \<Longrightarrow> Call k c \<in> set (fst (find tz d zr path)) \<Longrightarrow>
           MatchString (exp tz) (last c) \<Longrightarrow>
           Send k \<lparr>Path = c, Err = None\<rparr> \<in> set (fst (find tz d zr path))"
    and "Call k c \<in> set (fst (find_loop tz d ns path)) \<Longrightarrow>
           MatchString (exp tz) (last c) \<Longrightarrow>
           Send k \<lparr>Path = c, Err = None\<rparr> \<in> set (fst (find_loop tz d ns path))"
proof (induction tz d zr path and tz d ns path rule: find_find_loop.induct)
  case (1 tz d zr path)
  from \<open>path \<noteq> []\<close> show ?case
  proof (cases rule: find_shapes [where tz = tz and d = d and zr = zr])
    case leaf
    then show ?thesis using "1.prems" by (auto simp: matched_def)
  next
    case (failed f e)
    then show ?thesis using "1.prems" by (auto simp: matched_def)
  next
    case (container f)
    note IH = "1.IH" [OF \<open>path \<noteq> []\<close> refl refl container(1) [symmetric] _ refl
        container(2) [symmetric] refl refl]
    show ?thesis using container(3) "1.prems" IH by (auto simp: matched_def)
  qed
next
  case (5 tz d n c' rest path)
  show ?case
  proof (cases "snd (find tz (Suc d) c' (path @ [n])) = Panicked")
    case True
    then show ?thesis using "5.IH"(1) "5.prems" by (simp add: find_loop_Hdr)
  next
    case False
    then have "(fst (find tz (Suc d) c' (path @ [n])), Returned) = find tz (Suc d) c' (path @ [n])"
      using returned_or_panicked by (metis prod.collapse)
    note IH2 = "5.IH"(2) [OF this refl]
    show ?thesis using False "5.IH"(1) IH2 "5.prems" by (auto simp: find_loop_Hdr)
  qed
qed simp_all

text \<open>Every event of a call extends the call's chain, one name per level of nesting.\<close>

lemma extends_self: "chain ev = path \<Longrightarrow> depth ev = d \<Longrightarrow> extends d path ev"
  by (simp add: extends_def)

lemma extends_step: "extends (Suc d) (path @ [n]) ev \<Longrightarrow> extends d path ev"
proof -
  assume a: "extends (Suc d) (path @ [n]) ev"
  then have l: "Suc (length path) \<le> length (chain ev)"
    and t: "take (Suc (length path)) (chain ev) = path @ [n]"
    and k: "depth ev = Suc d + (length (chain ev) - Suc (length path))"
    by (simp_all add: extends_def)
  have "take (length path) (chain ev) = take (length path) (take (Suc (length path)) (chain ev))"
    by (simp add: min_def)
  also have "\<dots> = path" using t by simp
  finally show ?thesis using l k by (simp add: extends_def)
qed

lemma matched_extends: "\<forall>ev \<in> set (matched tz d path). extends d path ev"
  by (simp add: matched_def extends_def)

lemma find_extends:
  shows "\<forall>ev \<in> set (fst (find tz d zr path)). extends d path ev"
    and "\<forall>ev \<in> set (fst (find_loop tz d ns path)). extends d path ev"
proof (induction tz d zr path and tz d ns path rule: find_find_loop.induct)
  case (1 tz d zr path)
  show ?case
  proof (cases "path = []")
    case True
    then show ?thesis by (simp add: find_empty extends_def)
  next
    case False
    then show ?thesis
    proof (cases rule: find_shapes [where tz = tz and d = d and zr = zr])
      case leaf
      then show ?thesis using matched_extends by (auto simp: extends_def)
    next
      case (failed f e)
      then show ?thesis using matched_extends by (auto simp: extends_def)
    next
      case (container f)
      note IH = "1.IH" [OF False refl refl container(1) [symmetric] _ refl
          container(2) [symmetric] refl refl]
      have "\<forall>ev \<in> set (Call d path # matched tz d path). extends d path ev"
        using matched_extends by (auto simp: extends_def)
      then show ?thesis using container(3) IH by auto
    qed
  qed
next
  case (5 tz d n c' rest path)
  have c: "\<forall>ev \<in> set (fst (find tz (Suc d) c' (path @ [n]))). extends d path ev"
    using "5.IH"(1) extends_step by blast
  show ?case
  proof (cases "snd (find tz (Suc d) c' (path @ [n])) = Panicked")
    case True
    then show ?thesis using c by (simp add: find_loop_Hdr)
  next
    case False
    then have "(fst (find tz (Suc d) c' (path @ [n])), Returned) = find tz (Suc d) c' (path @ [n])"
      using returned_or_panicked by (metis prod.collapse)
    note IH2 = "5.IH"(2) [OF this refl]
    show ?thesis using False c IH2 by (auto simp: find_loop_Hdr)
  qed
qed (simp_all add: extends_def)

lemma findPath_events:
  "fst (findPath tz fs p) =
     (case snd (os_Open fs p) of None \<Rightarrow> [] | Some e \<Rightarrow> [Send 0 \<lparr>Path = [p], Err = Some e\<rparr>])
     @ fst (find tz 0 (fst (os_Open fs p)) [p])"
  and findPath_status: "snd (findPath tz fs p) = snd (find tz 0 (fst (os_Open fs p)) [p])"
  by (simp_all add: findPath_def Let_def split: prod.splits)

text \<open>A root that cannot be opened is reported, and \<open>find\<close> is entered all the same.\<close>

lemma findPath_open_failed:
  assumes "snd (os_Open fs p) = Some e"
  shows "fst (findPath tz fs p) =
           Send 0 \<lparr>Path = [p], Err = Some e\<rparr> # fst (find tz 0 (fst (os_Open fs p)) [p])"
    and "Call 0 [p] \<in> set (fst (findPath tz fs p))"
proof -
  show e: "fst (findPath tz fs p) =
           Send 0 \<lparr>Path = [p], Err = Some e\<rparr> # fst (find tz 0 (fst (os_Open fs p)) [p])"
    using assms by (simp add: findPath_events)
  have "Call 0 [p] \<in> set (fst (find tz 0 (fst (os_Open fs p)) [p]))"
    by (cases rule: find_shapes [where path = "[p]" and tz = tz and d = 0
          and zr = "fst (os_Open fs p)"]) simp_all
  then show "Call 0 [p] \<in> set (fst (findPath tz fs p))" by (simp add: e)
qed

lemma findPath_sound:
  "r \<in> set (sent (fst (findPath tz fs p))) \<Longrightarrow> Err r = None \<Longrightarrow>
   MatchString (exp tz) (last (Path r))"
  using find_sound(1) [of "[p]" tz 0 "fst (os_Open fs p)"]
  by (auto simp: findPath_events sent_append split: option.splits)

lemma findPath_complete:
  assumes "c \<in> set (visited (fst (findPath tz fs p)))" and "MatchString (exp tz) (last c)"
  shows "\<lparr>Path = c, Err = None\<rparr> \<in> set (sent (fst (findPath tz fs p)))"
proof -
  from assms(1) obtain k where "Call k c \<in> set (fst (find tz 0 (fst (os_Open fs p)) [p]))"
    by (auto simp: findPath_events visited_iff split: option.splits)
  then have "Send k \<lparr>Path = c, Err = None\<rparr> \<in> set (fst (find tz 0 (fst (os_Open fs p)) [p]))"
    using find_complete(1) assms(2) by blast
  then show ?thesis by (auto simp: findPath_events sent_iff)
qed


section \<open>Facts about the dispatcher\<close>

lemma filter_update_drop:
  "i < length xs \<Longrightarrow> P (xs ! i) \<Longrightarrow> \<not> P y \<Longrightarrow>
   Suc (length (filter P (xs[i := y]))) = length (filter P xs)"
proof (induction xs arbitrary: i)
  case Nil
  then show ?case by simp
next
  case (Cons x xs)
  then show ?case by (cases i) auto
qed

lemma filter_update_keep:
  "i < length xs \<Longrightarrow> P (xs ! i) \<Longrightarrow> P y \<Longrightarrow>
   length (filter P (xs[i := y])) = length (filter P xs)"
proof (induction xs arbitrary: i)
  case Nil
  then show ?case by simp
next
  case (Cons x xs)
  then show ?case by (cases i) auto
qed

lemma filter_none: "length (filter P xs) = 0 \<Longrightarrow> x \<in> set xs \<Longrightarrow> \<not> P x"
  by (induction xs) (auto split: if_splits)

lemma run_inv_Start: "run_inv (workers (Start tz fs paths)) (Start tz fs paths)"
proof -
  let ?ws = "workers (Start tz fs paths)"
  have a: "\<forall>g \<in> set ?ws. g \<noteq> Finished" by (auto simp: Start_def spawn_def)
  then have "filter (\<lambda>g. g \<noteq> Finished) ?ws = ?ws" by (simp add: filter_id_conv)
  moreover have "\<forall>i < length ?ws. \<exists>rs0 st. ?ws ! i = Running rs0 st"
    using a by (metis goroutine.exhaust nth_mem)
  moreover have "length ?ws = length paths" by (simp add: Start_def)
  ultimately show ?thesis
    unfolding run_inv_def by (fastforce simp: Start_def)
qed

lemma run_inv_step:
  assumes "run_inv ws s" and "step s s'"
  shows "run_inv ws s'"
  using assms(2)
proof cases
  case (send i r rs st)
  have L: "length (workers s) = length ws" using assms(1) by (simp add: run_inv_def)
  have A: "\<forall>j < length ws. \<exists>rs0 st. ws ! j = Running rs0 st
           \<and> (workers s' ! j = Finished \<and> st = Returned \<and> set rs0 \<subseteq> set (out s')
              \<or> (\<exists>pre rs. workers s' ! j = Running rs st \<and> rs0 = pre @ rs \<and> set pre \<subseteq> set (out s')))"
  proof (intro allI impI)
    fix j assume j: "j < length ws"
    from assms(1) j obtain rs0 st0 where w: "ws ! j = Running rs0 st0"
      and c: "workers s ! j = Finished \<and> st0 = Returned \<and> set rs0 \<subseteq> set (out s)
              \<or> (\<exists>pre rs. workers s ! j = Running rs st0 \<and> rs0 = pre @ rs \<and> set pre \<subseteq> set (out s))"
      unfolding run_inv_def by blast
    show "\<exists>rs0 st. ws ! j = Running rs0 st
           \<and> (workers s' ! j = Finished \<and> st = Returned \<and> set rs0 \<subseteq> set (out s')
              \<or> (\<exists>pre rs. workers s' ! j = Running rs st \<and> rs0 = pre @ rs \<and> set pre \<subseteq> set (out s')))"
    proof (cases "j = i")
      case True
      with c send(4) obtain pre where p: "st0 = st" "rs0 = pre @ r # rs" "set pre \<subseteq> set (out s)"
        by auto
      have "workers s' ! j = Running rs st" using True send L j by simp
      moreover have "rs0 = (pre @ [r]) @ rs" using p by simp
      moreover have "set (pre @ [r]) \<subseteq> set (out s')" using p send by auto
      ultimately show ?thesis using w p(1) by blast
    next
      case False
      then have "workers s' ! j = workers s ! j" using send by simp
      moreover have "set (out s) \<subseteq> set (out s')" using send by auto
      ultimately show ?thesis using w c by (metis (no_types, lifting) order_trans)
    qed
  qed
  have "r \<in> set (pending (ws ! i))"
  proof -
    from assms(1) send(3) L obtain rs0 st0 where w: "ws ! i = Running rs0 st0"
      and c: "workers s ! i = Finished \<and> st0 = Returned \<and> set rs0 \<subseteq> set (out s)
              \<or> (\<exists>pre rs. workers s ! i = Running rs st0 \<and> rs0 = pre @ rs \<and> set pre \<subseteq> set (out s))"
      unfolding run_inv_def by metis
    with send(4) show ?thesis by auto
  qed
  then have B: "set (out s') \<subseteq> (\<Union>g \<in> set ws. set (pending g))"
    using assms(1) send L unfolding run_inv_def
    by (auto simp del: pending.simps)
  have C: "length (filter (\<lambda>g. g \<noteq> Finished) (workers s')) = length (filter (\<lambda>g. g \<noteq> Finished) (workers s))"
    using send filter_update_keep [of i "workers s" "\<lambda>g. g \<noteq> Finished" "Running rs st"] by simp
  have D: "crashed s' \<longrightarrow> (\<exists>i < length (workers s'). \<exists>rs. workers s' ! i = Running rs Panicked)"
    using send by simp
  show ?thesis
    unfolding run_inv_def using A B C D assms(1) send L
    by (simp add: run_inv_def split: if_splits)
next
  case (send_closed i r rs st)
  then have "\<not> closer s" "wg s = 0" using assms(1) by (auto simp: run_inv_def split: if_splits)
  then have "length (filter (\<lambda>g. g \<noteq> Finished) (workers s)) = 0"
    using assms(1) by (simp add: run_inv_def)
  then have "workers s ! i = Finished"
    using filter_none [of "\<lambda>g. g \<noteq> Finished" "workers s" "workers s ! i"] send_closed(3) by simp
  then show ?thesis using send_closed by simp
next
  case (panic i)
  then show ?thesis using assms(1) unfolding run_inv_def by auto
next
  case (wg_Done i)
  have L: "length (workers s) = length ws" using assms(1) by (simp add: run_inv_def)
  have A: "\<forall>j < length ws. \<exists>rs0 st. ws ! j = Running rs0 st
           \<and> (workers s' ! j = Finished \<and> st = Returned \<and> set rs0 \<subseteq> set (out s')
              \<or> (\<exists>pre rs. workers s' ! j = Running rs st \<and> rs0 = pre @ rs \<and> set pre \<subseteq> set (out s')))"
  proof (intro allI impI)
    fix j assume j: "j < length ws"
    from assms(1) j obtain rs0 st0 where w: "ws ! j = Running rs0 st0"
      and c: "workers s ! j = Finished \<and> st0 = Returned \<and> set rs0 \<subseteq> set (out s)
              \<or> (\<exists>pre rs. workers s ! j = Running rs st0 \<and> rs0 = pre @ rs \<and> set pre \<subseteq> set (out s))"
      unfolding run_inv_def by blast
    show "\<exists>rs0 st. ws ! j = Running rs0 st
           \<and> (workers s' ! j = Finished \<and> st = Returned \<and> set rs0 \<subseteq> set (out s')
              \<or> (\<exists>pre rs. workers s' ! j = Running rs st \<and> rs0 = pre @ rs \<and> set pre \<subseteq> set (out s')))"
    proof (cases "j = i")
      case True
      with c wg_Done(4) have "st0 = Returned" "set rs0 \<subseteq> set (out s)" by auto
      moreover have "workers s' ! j = Finished" using True wg_Done L j by simp
      moreover have "out s' = out s" using wg_Done by simp
      ultimately show ?thesis using w by simp
    next
      case False
      then have "workers s' ! j = workers s ! j" "out s' = out s" using wg_Done by simp_all
      then show ?thesis using w c by simp
    qed
  qed
  have C: "Suc (length (filter (\<lambda>g. g \<noteq> Finished) (workers s'))) = length (filter (\<lambda>g. g \<noteq> Finished) (workers s))"
    using wg_Done filter_update_drop [of i "workers s" "\<lambda>g. g \<noteq> Finished" Finished] by simp
  then have C': "wg s' = int (length (filter (\<lambda>g. g \<noteq> Finished) (workers s')))"
    using assms(1) wg_Done by (simp add: run_inv_def)
  have E: "closer s" using assms(1) wg_Done(5) by (auto simp: run_inv_def)
  show ?thesis
    unfolding run_inv_def using A C' E assms(1) wg_Done L
    by (simp add: run_inv_def split: if_splits)
next
  case (wg_Done_negative i)
  then have "length (filter (\<lambda>g. g \<noteq> Finished) (workers s)) = 0"
    using assms(1) by (simp add: run_inv_def)
  then have "workers s ! i = Finished"
    using filter_none [of "\<lambda>g. g \<noteq> Finished" "workers s" "workers s ! i"] wg_Done_negative(3) by simp
  then show ?thesis using wg_Done_negative by simp
next
  case close_Out
  then show ?thesis using assms(1) unfolding run_inv_def by auto
qed

lemma run_inv_reachable:
  assumes "reachable (Start tz fs paths) s"
  shows "run_inv (workers (Start tz fs paths)) s"
  using assms unfolding reachable_def
  by (induction rule: rtranclp_induct) (auto intro: run_inv_Start run_inv_step)


lemma sum_list_work_update:
  assumes "i < length ws" and "work g < work (ws ! i)"
  shows "sum_list (map work (ws[i := g])) < sum_list (map work ws)"
  using assms
proof (induction ws arbitrary: i)
  case Nil
  then show ?case by simp
next
  case (Cons w ws)
  then show ?case by (cases i) auto
qed

lemma step_todo: "step s s' \<Longrightarrow> todo s' < todo s"
  by (induction rule: step.induct) (auto simp: todo_def sum_list_work_update)

text \<open>There is no infinite run.\<close>

lemma runs_terminate: "wf {(s', s). step s s'}"
proof -
  have "{(s', s). step s s'} \<subseteq> measure todo" using step_todo by auto
  then show ?thesis by (rule wf_subset [OF wf_measure])
qed

lemma pending_Start:
  "(\<Union>g \<in> set (workers (Start tz fs paths)). set (pending g)) = emitted tz fs paths"
  by (simp add: Start_def spawn_def emitted_def)

lemma out_emitted:
  assumes "reachable (Start tz fs paths) s"
  shows "set (out s) \<subseteq> emitted tz fs paths"
  using run_inv_reachable [OF assms] pending_Start [of tz fs paths]
  unfolding run_inv_def by blast

lemma finished_out_emitted:
  assumes "reachable (Start tz fs paths) s" and "\<forall>g \<in> set (workers s). g = Finished"
  shows "set (out s) = emitted tz fs paths"
proof
  show "set (out s) \<subseteq> emitted tz fs paths" using out_emitted [OF assms(1)] .
next
  let ?ws = "workers (Start tz fs paths)"
  note inv = run_inv_reachable [OF assms(1)]
  then have L: "length (workers s) = length ?ws" by (simp add: run_inv_def)
  show "emitted tz fs paths \<subseteq> set (out s)"
  proof
    fix r assume "r \<in> emitted tz fs paths"
    then obtain g where g: "g \<in> set ?ws" "r \<in> set (pending g)"
      using pending_Start [of tz fs paths] by blast
    then obtain i where i: "i < length ?ws" "?ws ! i = g" by (auto simp: in_set_conv_nth)
    from inv i(1) obtain rs0 st where w: "?ws ! i = Running rs0 st"
      and c: "workers s ! i = Finished \<and> st = Returned \<and> set rs0 \<subseteq> set (out s)
              \<or> (\<exists>pre rs. workers s ! i = Running rs st \<and> rs0 = pre @ rs \<and> set pre \<subseteq> set (out s))"
      unfolding run_inv_def by blast
    have "workers s ! i = Finished" using assms(2) i(1) L by simp
    with c have "set rs0 \<subseteq> set (out s)" by auto
    then show "r \<in> set (out s)" using g(2) i(2) w by auto
  qed
qed

lemma closed_after_all_finished:
  assumes "reachable (Start tz fs paths) s"
  shows "closes s \<le> 1" and "0 < closes s \<Longrightarrow> \<forall>g \<in> set (workers s). g = Finished"
proof -
  note inv = run_inv_reachable [OF assms]
  show "closes s \<le> 1" using inv by (simp add: run_inv_def)
  assume "0 < closes s"
  then have "length (filter (\<lambda>g. g \<noteq> Finished) (workers s)) = 0"
    using inv by (auto simp: run_inv_def split: if_splits)
  then show "\<forall>g \<in> set (workers s). g = Finished"
    using filter_none [of "\<lambda>g. g \<noteq> Finished" "workers s"] by blast
qed

lemma stuck_closed:
  assumes "reachable (Start tz fs paths) s" and "stuck s" and "\<not> crashed s"
  shows "closes s = 1" and "\<forall>g \<in> set (workers s). g = Finished"
proof -
  note inv = run_inv_reachable [OF assms(1)]
  have fin: "workers s ! i = Finished" if i: "i < length (workers s)" for i
  proof (cases "workers s ! i")
    case (Running rs st)
    show ?thesis
    proof (cases rs)
      case Nil
      show ?thesis
      proof (cases st)
        case Returned
        then have "\<exists>s'. step s s'"
          using step.wg_Done [OF assms(3) i] step.wg_Done_negative [OF assms(3) i] Running Nil
          by (cases "0 < wg s") auto
        then show ?thesis using assms(2) by (simp add: stuck_def)
      next
        case Panicked
        then have "\<exists>s'. step s s'" using step.panic [OF assms(3) i] Running Nil by auto
        then show ?thesis using assms(2) by (simp add: stuck_def)
      qed
    next
      case (Cons r rs')
      then have "\<exists>s'. step s s'"
        using step.send [OF assms(3) i] step.send_closed [OF assms(3) i] Running
        by (cases "closes s = 0") auto
      then show ?thesis using assms(2) by (simp add: stuck_def)
    qed
  qed
  then show all: "\<forall>g \<in> set (workers s). g = Finished" by (auto simp: in_set_conv_nth)
  then have "filter (\<lambda>g. g \<noteq> Finished) (workers s) = []" by (simp add: filter_empty_conv)
  then have "wg s = 0" using inv by (simp add: run_inv_def)
  then have "\<not> closer s" using step.close_Out [OF assms(3)] assms(2) by (auto simp: stuck_def)
  then show "closes s = 1" using inv by (simp add: run_inv_def)
qed

lemma panicking_root_never_closed:
  assumes "reachable (Start tz fs paths) s" and "p \<in> set paths"
    and "snd (findPath tz fs p) = Panicked"
  shows "closes s = 0"
proof (rule ccontr)
  assume "closes s \<noteq> 0"
  then have fin: "\<forall>g \<in> set (workers s). g = Finished"
    using closed_after_all_finished(2) [OF assms(1)] by simp
  let ?ws = "workers (Start tz fs paths)"
  note inv = run_inv_reachable [OF assms(1)]
  then have L: "length (workers s) = length ?ws" by (simp add: run_inv_def)
  from assms(2) obtain i where i: "i < length paths" "paths ! i = p"
    by (auto simp: in_set_conv_nth)
  then have w: "?ws ! i = Running (sent (fst (findPath tz fs p))) Panicked" and il: "i < length ?ws"
    using assms(3) by (simp_all add: Start_def spawn_def)
  from inv il obtain rs0 st where w': "?ws ! i = Running rs0 st"
      and c: "workers s ! i = Finished \<and> st = Returned \<and> set rs0 \<subseteq> set (out s)
              \<or> (\<exists>pre rs. workers s ! i = Running rs st \<and> rs0 = pre @ rs \<and> set pre \<subseteq> set (out s))"
      unfolding run_inv_def by blast
  have "workers s ! i = Finished" using fin il L by simp
  with c have "st = Returned" by auto
  with w w' show False by simp
qed


section \<open>Matching\<close>

text \<open>
  Claim C1. For every set of roots and every pattern: a Result sent without an error
  has a chain whose last name satisfies the matcher, and for every chain visited whose
  last name satisfies the matcher the match Result with that chain is sent. What the
  consumer has received is, at every moment of a run, among these Results, and is all
  of them once every root's goroutine has finished.
\<close>

theorem matching_sound_and_complete:
  "(\<forall>r \<in> emitted tz fs paths. Err r = None \<longrightarrow> MatchString (exp tz) (last (Path r)))
   \<and> (\<forall>c \<in> nodes_visited tz fs paths.
         MatchString (exp tz) (last c) \<longrightarrow> \<lparr>Path = c, Err = None\<rparr> \<in> emitted tz fs paths)
   \<and> (\<forall>s. reachable (Start tz fs paths) s \<longrightarrow> set (out s) \<subseteq> emitted tz fs paths)
   \<and> (\<forall>s. reachable (Start tz fs paths) s \<and> (\<forall>g \<in> set (workers s). g = Finished)
         \<longrightarrow> set (out s) = emitted tz fs paths)"
proof (intro conjI)
  show "\<forall>r \<in> emitted tz fs paths. Err r = None \<longrightarrow> MatchString (exp tz) (last (Path r))"
    using findPath_sound by (auto simp: emitted_def)
  show "\<forall>c \<in> nodes_visited tz fs paths.
         MatchString (exp tz) (last c) \<longrightarrow> \<lparr>Path = c, Err = None\<rparr> \<in> emitted tz fs paths"
    using findPath_complete by (fastforce simp: emitted_def nodes_visited_def)
  show "\<forall>s. reachable (Start tz fs paths) s \<longrightarrow> set (out s) \<subseteq> emitted tz fs paths"
    using out_emitted by blast
  show "\<forall>s. reachable (Start tz fs paths) s \<and> (\<forall>g \<in> set (workers s). g = Finished)
         \<longrightarrow> set (out s) = emitted tz fs paths"
    using finished_out_emitted by blast
qed

lemma run_b:
  "reachable (Start pattern_y disk [''a.tar''])
     \<lparr>workers = [Finished], wg = 0, closer = True, closes = 0,
      out = [\<lparr>Path = [''a.tar'', ''inner.tar.gz'', ''y.txt''], Err = None\<rparr>], crashed = False\<rparr>"
proof -
  let ?r = "\<lparr>Path = [''a.tar'', ''inner.tar.gz'', ''y.txt''], Err = None\<rparr>"
  let ?s0 = "\<lparr>workers = [Running [?r] Returned], wg = 1, closer = True, closes = 0,
      out = [], crashed = False\<rparr>"
  let ?s1 = "\<lparr>workers = [Running [] Returned], wg = 1, closer = True, closes = 0,
      out = [?r], crashed = False\<rparr>"
  let ?s2 = "\<lparr>workers = [Finished], wg = 0, closer = True, closes = 0,
      out = [?r], crashed = False\<rparr>"
  have f: "findPath pattern_y disk ''a.tar'' =
     ([Call 0 [''a.tar''], Call 1 [''a.tar'', ''x.txt''], Call 1 [''a.tar'', ''inner.tar.gz''],
       Call 2 [''a.tar'', ''inner.tar.gz'', ''y.txt''], Send 2 ?r], Returned)"
    by code_simp
  have s0: "Start pattern_y disk [''a.tar''] = ?s0"
    by (simp add: Start_def spawn_def f)
  have "step ?s0 ?s1" using step.send [of ?s0 0 ?r "[]" Returned] by simp
  moreover have "step ?s1 ?s2" using step.wg_Done [of ?s1 0] by simp
  ultimately show ?thesis unfolding reachable_def s0 by simp
qed

theorem matching_sound_and_complete_witness:
  "\<lparr>Path = [''a.tar'', ''inner.tar.gz'', ''y.txt''], Err = None\<rparr> \<in> emitted pattern_y disk [''a.tar'']
   \<and> MatchString (exp pattern_y) ''y.txt''
   \<and> [''a.tar'', ''inner.tar.gz'', ''y.txt''] \<in> nodes_visited pattern_y disk [''a.tar'']
   \<and> reachable (Start pattern_y disk [''a.tar''])
       \<lparr>workers = [Finished], wg = 0, closer = True, closes = 0,
        out = [\<lparr>Path = [''a.tar'', ''inner.tar.gz'', ''y.txt''], Err = None\<rparr>], crashed = False\<rparr>
   \<and> emitted pattern_y disk [''a.tar'']
       = {\<lparr>Path = [''a.tar'', ''inner.tar.gz'', ''y.txt''], Err = None\<rparr>}"
proof -
  let ?r = "\<lparr>Path = [''a.tar'', ''inner.tar.gz'', ''y.txt''], Err = None\<rparr>"
  let ?s2 = "\<lparr>workers = [Finished], wg = 0, closer = True, closes = 0,
      out = [?r], crashed = False\<rparr>"
  have v: "[''a.tar'', ''inner.tar.gz'', ''y.txt''] \<in> nodes_visited pattern_y disk [''a.tar'']"
    by code_simp
  have m: "MatchString (exp pattern_y) (last [''a.tar'', ''inner.tar.gz'', ''y.txt''])"
    by code_simp
  have fin: "\<forall>g \<in> set (workers ?s2). g = Finished" by simp
  note T = matching_sound_and_complete [of pattern_y disk "[''a.tar'']"]
  from T v m have e: "?r \<in> emitted pattern_y disk [''a.tar'']" by blast
  from T e have "MatchString (exp pattern_y) (last (Path ?r))" by force
  then have m': "MatchString (exp pattern_y) ''y.txt''" by simp
  from T run_b fin have "set (out ?s2) = emitted pattern_y disk [''a.tar'']" by blast
  then have "emitted pattern_y disk [''a.tar''] = {?r}" by simp
  with e m' v run_b show ?thesis by blast
qed


section \<open>Failures of the decompressor and of the open\<close>

text \<open>
  Claim C2, at the root \<open>bad.tar.gz\<close> of the spec's scenario C, whose content
  \<open>gzip.NewReader\<close> rejects. \<open>find\<close> sends the failure Result with the chain
  \<open>[bad.tar.gz]\<close> and does not return: it goes on to read tar entries through the reader
  of the failed decompressor and panics. Lemma \<open>find_failed\<close> says so for every chain
  whose decompressor fails.
\<close>

theorem findPath_bad_gzip_panics:
  "findPath no_match disk ''bad.tar.gz'' =
     ([Call 0 [''bad.tar.gz''],
       Send 0 \<lparr>Path = [''bad.tar.gz''], Err = Some ''gzip: invalid header''\<rparr>], Panicked)"
  by code_simp

text \<open>
  Claim C3, at the root \<open>missing.tar\<close> of the spec's scenario D, which cannot be opened.
  \<open>findPath\<close> sends the failure Result and then calls \<open>find\<close> on the \<open>nil\<close> file: with a
  pattern that matches the name the match Result follows, and the read of the first tar
  header through the \<open>nil\<close> file fails and is sent as a second failure Result. Lemma
  \<open>findPath_open_failed\<close> says for every root that cannot be opened that \<open>find\<close> is entered
  after the failure Result.
\<close>

theorem findPath_missing_root_goes_on:
  "findPath pattern_m disk ''missing.tar'' =
     ([Send 0 \<lparr>Path = [''missing.tar''], Err = Some ''open missing.tar: no such file or directory''\<rparr>,
       Call 0 [''missing.tar''],
       Send 0 \<lparr>Path = [''missing.tar''], Err = None\<rparr>,
       Send 0 \<lparr>Path = [''missing.tar''], Err = Some ''invalid argument''\<rparr>], Returned)
   \<and> sent (fst (findPath no_match disk ''missing.tar'')) =
      [\<lparr>Path = [''missing.tar''], Err = Some ''open missing.tar: no such file or directory''\<rparr>,
       \<lparr>Path = [''missing.tar''], Err = Some ''invalid argument''\<rparr>]"
  by code_simp

section \<open>The closing of the channel\<close>

lemma stuck_crashed: "crashed s \<Longrightarrow> stuck s"
  unfolding stuck_def by (auto elim: step.cases)

text \<open>
  Claim C4, at the single root \<open>bad.tar.gz\<close>. The root's goroutine sends the failure
  Result and panics before \<open>wg.Done()\<close>: the run ends crashed, and in no state of any run
  has \<open>close(tz.Out)\<close> been called. Lemma \<open>closed_after_all_finished\<close> has the part of the
  claim that holds on every run (at most one close, and none before every root's
  goroutine has finished); lemmas \<open>runs_terminate\<close> and \<open>stuck_closed\<close> have its other part
  for the runs without a panic: every run ends, and one that ends without a panic ends
  with the channel closed.
\<close>

theorem Start_bad_gzip_never_closes:
  "reachable (Start no_match disk [''bad.tar.gz''])
     \<lparr>workers = [Running [] Panicked], wg = 1, closer = True, closes = 0,
      out = [\<lparr>Path = [''bad.tar.gz''], Err = Some ''gzip: invalid header''\<rparr>], crashed = True\<rparr>
   \<and> stuck \<lparr>workers = [Running [] Panicked], wg = 1, closer = True, closes = 0,
      out = [\<lparr>Path = [''bad.tar.gz''], Err = Some ''gzip: invalid header''\<rparr>], crashed = True\<rparr>
   \<and> \<not> (\<exists>s. reachable (Start no_match disk [''bad.tar.gz'']) s \<and> closes s \<noteq> 0)"
proof (intro conjI)
  let ?r = "\<lparr>Path = [''bad.tar.gz''], Err = Some ''gzip: invalid header''\<rparr>"
  let ?s0 = "\<lparr>workers = [Running [?r] Panicked], wg = 1, closer = True, closes = 0,
      out = [], crashed = False\<rparr>"
  let ?s1 = "\<lparr>workers = [Running [] Panicked], wg = 1, closer = True, closes = 0,
      out = [?r], crashed = False\<rparr>"
  let ?s2 = "\<lparr>workers = [Running [] Panicked], wg = 1, closer = True, closes = 0,
      out = [?r], crashed = True\<rparr>"
  have f: "findPath no_match disk ''bad.tar.gz'' = ([Call 0 [''bad.tar.gz''], Send 0 ?r], Panicked)"
    by code_simp
  have s0: "Start no_match disk [''bad.tar.gz''] = ?s0"
    by (simp add: Start_def spawn_def f)
  have "step ?s0 ?s1" using step.send [of ?s0 0 ?r "[]" Panicked] by simp
  moreover have "step ?s1 ?s2" using step.panic [of ?s1 0] by simp
  ultimately show "reachable (Start no_match disk [''bad.tar.gz'']) ?s2"
    unfolding reachable_def s0 by simp
  show "stuck ?s2" by (simp add: stuck_crashed)
  show "\<not> (\<exists>s. reachable (Start no_match disk [''bad.tar.gz'']) s \<and> closes s \<noteq> 0)"
    using panicking_root_never_closed [of no_match disk "[''bad.tar.gz'']" _ "''bad.tar.gz''"] f
    by auto
qed

text \<open>With no roots the only step is the close.\<close>

lemma step_Start_empty:
  "step (Start tz fs []) s \<longleftrightarrow> s = (Start tz fs [])\<lparr>closer := False, closes := 1\<rparr>"
proof
  assume "step (Start tz fs []) s"
  then show "s = (Start tz fs [])\<lparr>closer := False, closes := 1\<rparr>"
    by cases (simp_all add: Start_def)
next
  assume "s = (Start tz fs [])\<lparr>closer := False, closes := 1\<rparr>"
  then show "step (Start tz fs []) s"
    using step.close_Out [of "Start tz fs []"] by (simp add: Start_def)
qed

lemma stuck_closed_empty: "stuck ((Start tz fs [])\<lparr>closer := False, closes := 1\<rparr>)"
  unfolding stuck_def by (auto elim: step.cases simp: Start_def)

lemma reachable_Start_empty:
  "reachable (Start tz fs []) s \<longleftrightarrow>
     s = Start tz fs [] \<or> s = (Start tz fs [])\<lparr>closer := False, closes := 1\<rparr>"
proof
  assume "reachable (Start tz fs []) s"
  then show "s = Start tz fs [] \<or> s = (Start tz fs [])\<lparr>closer := False, closes := 1\<rparr>"
    unfolding reachable_def
  proof (induction rule: rtranclp_induct)
    case base
    then show ?case by simp
  next
    case (step y z)
    then show ?case using step_Start_empty [of tz fs] stuck_closed_empty [of tz fs]
      by (auto simp: stuck_def)
  qed
next
  assume "s = Start tz fs [] \<or> s = (Start tz fs [])\<lparr>closer := False, closes := 1\<rparr>"
  then show "reachable (Start tz fs []) s"
    unfolding reachable_def using step_Start_empty [of tz fs] by auto
qed

text \<open>
  Claim C10. For the empty list of roots \<open>Start\<close> launches no descent; in every state of
  every run nothing has been received and no goroutine has panicked; the only step ever
  possible is the close of the channel, and a run that can go no further has closed it.
\<close>

theorem Start_no_roots:
  "workers (Start tz fs []) = []
   \<and> (\<forall>s. reachable (Start tz fs []) s \<longrightarrow> out s = [] \<and> workers s = [] \<and> \<not> crashed s)
   \<and> (\<forall>s. reachable (Start tz fs []) s \<and> stuck s \<longrightarrow> closes s = 1)
   \<and> (\<forall>s. reachable (Start tz fs []) s \<and> \<not> stuck s \<longrightarrow>
         (\<forall>s'. step s s' \<longleftrightarrow> s' = s\<lparr>closer := False, closes := 1\<rparr>))
   \<and> reachable (Start tz fs []) ((Start tz fs [])\<lparr>closer := False, closes := 1\<rparr>)"
proof -
  let ?s0 = "Start tz fs []"
  let ?s1 = "?s0\<lparr>closer := False, closes := 1\<rparr>"
  have cases: "s = ?s0 \<or> s = ?s1" if "reachable ?s0 s" for s
    using that by (simp add: reachable_Start_empty)
  have A: "workers ?s0 = []" by (simp add: Start_def)
  have B: "\<forall>s. reachable ?s0 s \<longrightarrow> out s = [] \<and> workers s = [] \<and> \<not> crashed s"
  proof (intro allI impI)
    fix s assume "reachable ?s0 s"
    from cases [OF this] show "out s = [] \<and> workers s = [] \<and> \<not> crashed s"
      by (auto simp: Start_def)
  qed
  have ns: "\<not> stuck ?s0"
    using step_Start_empty [of tz fs] by (auto simp: stuck_def)
  have C: "\<forall>s. reachable ?s0 s \<and> stuck s \<longrightarrow> closes s = 1"
  proof (intro allI impI)
    fix s assume a: "reachable ?s0 s \<and> stuck s"
    then have "s = ?s1" using cases [of s] ns by auto
    then show "closes s = 1" by simp
  qed
  have D: "\<forall>s. reachable ?s0 s \<and> \<not> stuck s \<longrightarrow>
         (\<forall>s'. step s s' \<longleftrightarrow> s' = s\<lparr>closer := False, closes := 1\<rparr>)"
  proof (intro allI impI)
    fix s s' assume a: "reachable ?s0 s \<and> \<not> stuck s"
    then have "s = ?s0" using cases [of s] stuck_closed_empty [of tz fs] by auto
    then show "step s s' \<longleftrightarrow> s' = s\<lparr>closer := False, closes := 1\<rparr>"
      using step_Start_empty by simp
  qed
  have E: "reachable ?s0 ?s1" by (simp add: reachable_Start_empty)
  show ?thesis by (intro conjI A B C D E)
qed

theorem Start_no_roots_witness:
  "reachable (Start pattern_y disk []) ((Start pattern_y disk [])\<lparr>closer := False, closes := 1\<rparr>)
   \<and> stuck ((Start pattern_y disk [])\<lparr>closer := False, closes := 1\<rparr>)
   \<and> out ((Start pattern_y disk [])\<lparr>closer := False, closes := 1\<rparr>) = []
   \<and> closes ((Start pattern_y disk [])\<lparr>closer := False, closes := 1\<rparr>) = 1
   \<and> reachable (Start pattern_y disk []) (Start pattern_y disk [])
   \<and> \<not> stuck (Start pattern_y disk [])
   \<and> step (Start pattern_y disk []) ((Start pattern_y disk [])\<lparr>closer := False, closes := 1\<rparr>)"
proof -
  let ?s0 = "Start pattern_y disk []"
  let ?s1 = "?s0\<lparr>closer := False, closes := 1\<rparr>"
  note T = Start_no_roots [of pattern_y disk]
  have r0: "reachable ?s0 ?s0" by (simp add: reachable_def)
  have r1: "reachable ?s0 ?s1" using T by blast
  have st: "stuck ?s1" by (rule stuck_closed_empty)
  have c: "closes ?s1 = 1" using T r1 st by blast
  have o: "out ?s1 = []" using T r1 by blast
  have ns: "\<not> stuck ?s0"
  proof
    assume "stuck ?s0"
    then have "closes ?s0 = 1" using T r0 by blast
    then show False by (simp add: Start_def)
  qed
  have "step ?s0 ?s1" using T r0 ns by blast
  with r0 r1 st c o ns show ?thesis by blast
qed


section \<open>The iteration over the entries of a container\<close>

lemma find_first: "Call d path \<in> set (fst (find tz d zr path))"
proof (cases "path = []")
  case True
  then show ?thesis by (simp add: find_empty)
next
  case False
  then show ?thesis
    by (cases rule: find_shapes [where tz = tz and d = d and zr = zr]) simp_all
qed

lemma find_loop_headers:
  "all_return tz d path es \<Longrightarrow>
   find_loop tz d (headers es @ rest) path =
     (descents tz d path es @ fst (find_loop tz d rest path), snd (find_loop tz d rest path))"
proof (induction es)
  case Nil
  then show ?case by (simp add: headers_def descents_def)
next
  case (Cons a es)
  obtain n c where a: "a = (n, c)" by (cases a)
  from Cons.prems have r: "snd (find tz (Suc d) c (path @ [n])) = Returned"
    and "all_return tz d path es"
    by (simp_all add: all_return_def a)
  then have "find_loop tz d (headers es @ rest) path =
     (descents tz d path es @ fst (find_loop tz d rest path), snd (find_loop tz d rest path))"
    using Cons.IH by simp
  then show ?case using r
    by (simp add: a headers_def descents_def find_loop_Hdr)
qed

lemma extends_longer:
  assumes "extends (Suc d) (path @ [n]) ev"
  shows "chain ev \<noteq> path"
  using assms by (auto simp: extends_def)

lemma descents_deeper:
  assumes "ev \<in> set (descents tz d path es)"
  shows "chain ev \<noteq> path"
proof -
  from assms obtain n c where "ev \<in> set (fst (find tz (Suc d) c (path @ [n])))"
    by (auto simp: descents_def)
  then have "extends (Suc d) (path @ [n]) ev" using find_extends(1) by blast
  then show ?thesis by (rule extends_longer)
qed

lemma failures_at_append: "failures_at path (xs @ ys) = failures_at path xs @ failures_at path ys"
  by (simp add: failures_at_def sent_append)

lemma descents_no_failures: "failures_at path (descents tz d path es) = []"
proof -
  have "\<forall>r \<in> set (sent (descents tz d path es)). Path r \<noteq> path"
  proof
    fix r assume "r \<in> set (sent (descents tz d path es))"
    then obtain k where "Send k r \<in> set (descents tz d path es)" by (auto simp: sent_iff)
    from descents_deeper [OF this] show "Path r \<noteq> path" by simp
  qed
  then show ?thesis by (simp add: failures_at_def filter_empty_conv)
qed

text \<open>
  Claim C5. In the iteration over one container, let the entries \<open>es\<close> be read first,
  the recursive calls for them returning. If \<open>tr.Next()\<close> then returns an error that is
  not \<open>io.EOF\<close>, the failure Result with the container's chain is sent, it is the only
  failure Result with that chain, and the iteration stops: whatever the later calls of
  \<open>tr.Next()\<close> would return, nothing more is visited. If it returns \<open>io.EOF\<close>, the
  iteration stops and no failure Result with the container's chain is sent.
\<close>

theorem read_error_ends_iteration:
  "all_return tz d path es \<longrightarrow>
     find_loop tz d (headers es @ ReadErr e # later) path
       = (descents tz d path es @ [Send d \<lparr>Path = path, Err = Some e\<rparr>], Returned)
     \<and> failures_at path (fst (find_loop tz d (headers es @ ReadErr e # later) path))
       = [\<lparr>Path = path, Err = Some e\<rparr>]
     \<and> find_loop tz d (headers es @ EOF # later) path = (descents tz d path es, Returned)
     \<and> find_loop tz d (headers es) path = (descents tz d path es, Returned)
     \<and> failures_at path (fst (find_loop tz d (headers es @ EOF # later) path)) = []
     \<and> visited (fst (find_loop tz d (headers es @ ReadErr e # later) path))
       = visited (descents tz d path es)"
proof
  assume a: "all_return tz d path es"
  have 1: "find_loop tz d (headers es @ ReadErr e # later) path
       = (descents tz d path es @ [Send d \<lparr>Path = path, Err = Some e\<rparr>], Returned)"
    using find_loop_headers [OF a, of "ReadErr e # later"] by simp
  have 2: "find_loop tz d (headers es @ EOF # later) path = (descents tz d path es, Returned)"
    using find_loop_headers [OF a, of "EOF # later"] by simp
  have 3: "find_loop tz d (headers es) path = (descents tz d path es, Returned)"
    using find_loop_headers [OF a, of "[]"] by simp
  have 4: "failures_at path (fst (find_loop tz d (headers es @ ReadErr e # later) path))
       = [\<lparr>Path = path, Err = Some e\<rparr>]"
    by (simp add: 1 failures_at_append descents_no_failures) (simp add: failures_at_def)
  have 5: "failures_at path (fst (find_loop tz d (headers es @ EOF # later) path)) = []"
    by (simp add: 2 descents_no_failures)
  have 6: "visited (fst (find_loop tz d (headers es @ ReadErr e # later) path))
       = visited (descents tz d path es)"
    by (simp add: 1 visited_append)
  show "find_loop tz d (headers es @ ReadErr e # later) path
       = (descents tz d path es @ [Send d \<lparr>Path = path, Err = Some e\<rparr>], Returned)
     \<and> failures_at path (fst (find_loop tz d (headers es @ ReadErr e # later) path))
       = [\<lparr>Path = path, Err = Some e\<rparr>]
     \<and> find_loop tz d (headers es @ EOF # later) path = (descents tz d path es, Returned)
     \<and> find_loop tz d (headers es) path = (descents tz d path es, Returned)
     \<and> failures_at path (fst (find_loop tz d (headers es @ EOF # later) path)) = []
     \<and> visited (fst (find_loop tz d (headers es @ ReadErr e # later) path))
       = visited (descents tz d path es)"
    by (intro conjI 1 2 3 4 5 6)
qed

theorem read_error_ends_iteration_witness:
  "all_return pattern_y 0 [''broken.tar''] [(''x.txt'', plain)]
   \<and> tar_Next broken_tar
       = headers [(''x.txt'', plain)] @ ReadErr ''archive/tar: invalid tar header'' # [Hdr ''lost.txt'' plain]
   \<and> find_loop pattern_y 0 (tar_Next broken_tar) [''broken.tar'']
       = ([Call 1 [''broken.tar'', ''x.txt''],
           Send 0 \<lparr>Path = [''broken.tar''], Err = Some ''archive/tar: invalid tar header''\<rparr>], Returned)
   \<and> failures_at [''broken.tar''] (fst (find_loop pattern_y 0 (tar_Next broken_tar) [''broken.tar'']))
       = [\<lparr>Path = [''broken.tar''], Err = Some ''archive/tar: invalid tar header''\<rparr>]
   \<and> find_loop pattern_y 0 (headers [(''x.txt'', plain)] @ EOF # [Hdr ''lost.txt'' plain]) [''broken.tar'']
       = ([Call 1 [''broken.tar'', ''x.txt'']], Returned)"
proof -
  have a: "all_return pattern_y 0 [''broken.tar''] [(''x.txt'', plain)]" by code_simp
  have t: "tar_Next broken_tar
       = headers [(''x.txt'', plain)] @ ReadErr ''archive/tar: invalid tar header'' # [Hdr ''lost.txt'' plain]"
    by (simp add: broken_tar_def headers_def)
  have d: "descents pattern_y 0 [''broken.tar''] [(''x.txt'', plain)] = [Call 1 [''broken.tar'', ''x.txt'']]"
    by code_simp
  note T = read_error_ends_iteration [of pattern_y 0 "[''broken.tar'']" "[(''x.txt'', plain)]"
      "''archive/tar: invalid tar header''" "[Hdr ''lost.txt'' plain]"]
  from T a have "find_loop pattern_y 0
        (headers [(''x.txt'', plain)] @ ReadErr ''archive/tar: invalid tar header'' # [Hdr ''lost.txt'' plain])
        [''broken.tar'']
      = (descents pattern_y 0 [''broken.tar''] [(''x.txt'', plain)]
          @ [Send 0 \<lparr>Path = [''broken.tar''], Err = Some ''archive/tar: invalid tar header''\<rparr>], Returned)"
    by blast
  then have c1: "find_loop pattern_y 0 (tar_Next broken_tar) [''broken.tar'']
       = ([Call 1 [''broken.tar'', ''x.txt''],
           Send 0 \<lparr>Path = [''broken.tar''], Err = Some ''archive/tar: invalid tar header''\<rparr>], Returned)"
    by (simp only: t d append_Cons append_Nil)
  from T a have "failures_at [''broken.tar''] (fst (find_loop pattern_y 0
        (headers [(''x.txt'', plain)] @ ReadErr ''archive/tar: invalid tar header'' # [Hdr ''lost.txt'' plain])
        [''broken.tar'']))
       = [\<lparr>Path = [''broken.tar''], Err = Some ''archive/tar: invalid tar header''\<rparr>]"
    by blast
  then have c2: "failures_at [''broken.tar''] (fst (find_loop pattern_y 0 (tar_Next broken_tar) [''broken.tar'']))
       = [\<lparr>Path = [''broken.tar''], Err = Some ''archive/tar: invalid tar header''\<rparr>]"
    by (simp only: t)
  from T a have "find_loop pattern_y 0 (headers [(''x.txt'', plain)] @ EOF # [Hdr ''lost.txt'' plain]) [''broken.tar'']
       = (descents pattern_y 0 [''broken.tar''] [(''x.txt'', plain)], Returned)"
    by blast
  then have c3: "find_loop pattern_y 0 (headers [(''x.txt'', plain)] @ EOF # [Hdr ''lost.txt'' plain]) [''broken.tar'']
       = ([Call 1 [''broken.tar'', ''x.txt'']], Returned)"
    by (simp only: d)
  show ?thesis by (intro conjI a t c1 c2 c3)
qed


section \<open>Matching and recursion on one node\<close>

lemma find_sends_match:
  assumes "path \<noteq> []" and "MatchString (exp tz) (last path)"
  shows "Send d \<lparr>Path = path, Err = None\<rparr> \<in> set (fst (find tz d zr path))"
  using find_complete(1) [OF assms(1) find_first assms(2)] .

lemma descents_entry:
  assumes "(n, c) \<in> set es"
  shows "set (fst (find tz (Suc d) c (path @ [n]))) \<subseteq> set (descents tz d path es)"
  using assms by (force simp: descents_def)

lemma find_entries:
  assumes p: "path \<noteq> []" and n: "newDecompressor (last path) = (Some f, True)"
    and z: "decompress f zr = (Some zr, None)"
    and t: "tar_Next zr = headers es @ others" and a: "all_return tz d path es"
  shows "find tz d zr path =
           (Call d path # matched tz d path @ descents tz d path es
              @ fst (find_loop tz d others path),
            snd (find_loop tz d others path))"
  using find_container [OF p n z, of tz d] find_loop_headers [OF a, of others]
  by (simp add: t)

text \<open>
  Claim C7. For a node that is visited (a call of \<open>find\<close> on a chain that is not empty):
  if its name matches, the match Result is sent, whatever the classifier says. If its
  name is a container's, whose decompressor succeeds, then whether or not the name
  matched, the call is the visit, the match Result if the name matches, and then, for
  every entry in turn, all the events of the call of \<open>find\<close> on that entry with the chain
  extended by the entry's name, as long as these calls return: every such entry is
  visited, the one after them as well, even if its call panics, and after the last
  entry the call returns. A name with no known suffix makes the node a leaf: the call is
  the visit and the match Result, if the name matches, and nothing below it is visited.
\<close>

theorem match_and_recursion_independent:
  "path \<noteq> [] \<longrightarrow>
     (MatchString (exp tz) (last path)
        \<longrightarrow> Send d \<lparr>Path = path, Err = None\<rparr> \<in> set (fst (find tz d zr path)))
     \<and> (MatchString (exp tz) (last path) \<and> newDecompressor (last path) = (Some f, True)
          \<and> decompress f zr = (Some zr, None)
        \<longrightarrow> find tz d zr path =
              (Call d path # Send d \<lparr>Path = path, Err = None\<rparr> # fst (find_loop tz d (tar_Next zr) path),
               snd (find_loop tz d (tar_Next zr) path)))
     \<and> (newDecompressor (last path) = (Some f, True) \<and> decompress f zr = (Some zr, None)
          \<and> tar_Next zr = Hdr n c # rest
        \<longrightarrow> Call (Suc d) (path @ [n]) \<in> set (fst (find tz d zr path)))
     \<and> (\<not> snd (newDecompressor (last path))
        \<longrightarrow> find tz d zr path = (Call d path # matched tz d path, Returned)
            \<and> visited (fst (find tz d zr path)) = [path])
     \<and> (newDecompressor (last path) = (Some f, True) \<and> decompress f zr = (Some zr, None)
          \<and> tar_Next zr = headers es @ others \<and> all_return tz d path es
        \<longrightarrow> find tz d zr path =
              (Call d path
                 # (if MatchString (exp tz) (last path)
                    then [Send d \<lparr>Path = path, Err = None\<rparr>] else [])
                 @ descents tz d path es @ fst (find_loop tz d others path),
               snd (find_loop tz d others path))
            \<and> (\<forall>e \<in> set es.
                  set (fst (find tz (Suc d) (snd e) (path @ [fst e])))
                    \<subseteq> set (fst (find tz d zr path))
                  \<and> path @ [fst e] \<in> set (visited (fst (find tz d zr path)))))
     \<and> (newDecompressor (last path) = (Some f, True) \<and> decompress f zr = (Some zr, None)
          \<and> (tar_Next zr = headers es \<or> tar_Next zr = headers es @ EOF # later)
          \<and> all_return tz d path es
        \<longrightarrow> find tz d zr path =
              (Call d path
                 # (if MatchString (exp tz) (last path)
                    then [Send d \<lparr>Path = path, Err = None\<rparr>] else [])
                 @ descents tz d path es,
               Returned))
     \<and> (newDecompressor (last path) = (Some f, True) \<and> decompress f zr = (Some zr, None)
          \<and> tar_Next zr = headers es @ Hdr n c # rest \<and> all_return tz d path es
        \<longrightarrow> fst (find tz d zr path) =
              Call d path
                 # (if MatchString (exp tz) (last path)
                    then [Send d \<lparr>Path = path, Err = None\<rparr>] else [])
                 @ descents tz d path es @ fst (find tz (Suc d) c (path @ [n]))
                 @ (if snd (find tz (Suc d) c (path @ [n])) = Panicked then []
                    else fst (find_loop tz d rest path)))"
proof
  assume p: "path \<noteq> []"
  have 1: "MatchString (exp tz) (last path)
        \<longrightarrow> Send d \<lparr>Path = path, Err = None\<rparr> \<in> set (fst (find tz d zr path))"
    using find_sends_match [OF p] by simp
  have 2: "MatchString (exp tz) (last path) \<and> newDecompressor (last path) = (Some f, True)
          \<and> decompress f zr = (Some zr, None)
        \<longrightarrow> find tz d zr path =
              (Call d path # Send d \<lparr>Path = path, Err = None\<rparr> # fst (find_loop tz d (tar_Next zr) path),
               snd (find_loop tz d (tar_Next zr) path))"
    using find_container [OF p] by (simp add: matched_def)
  have 3: "newDecompressor (last path) = (Some f, True) \<and> decompress f zr = (Some zr, None)
          \<and> tar_Next zr = Hdr n c # rest
        \<longrightarrow> Call (Suc d) (path @ [n]) \<in> set (fst (find tz d zr path))"
  proof
    assume a: "newDecompressor (last path) = (Some f, True) \<and> decompress f zr = (Some zr, None)
          \<and> tar_Next zr = Hdr n c # rest"
    have "Call (Suc d) (path @ [n]) \<in> set (fst (find_loop tz d (Hdr n c # rest) path))"
      using find_first [of "Suc d" "path @ [n]" tz c] by (simp add: find_loop_Hdr)
    then show "Call (Suc d) (path @ [n]) \<in> set (fst (find tz d zr path))"
      using a find_container [OF p, of f zr tz d] by simp
  qed
  have 4: "\<not> snd (newDecompressor (last path))
        \<longrightarrow> find tz d zr path = (Call d path # matched tz d path, Returned)
            \<and> visited (fst (find tz d zr path)) = [path]"
  proof
    assume a: "\<not> snd (newDecompressor (last path))"
    have "find tz d zr path = (Call d path # matched tz d path, Returned)"
      using find_leaf [OF p a] .
    then show "find tz d zr path = (Call d path # matched tz d path, Returned)
            \<and> visited (fst (find tz d zr path)) = [path]"
      by (simp add: matched_def)
  qed
  have 5: "newDecompressor (last path) = (Some f, True) \<and> decompress f zr = (Some zr, None)
          \<and> tar_Next zr = headers es @ others \<and> all_return tz d path es
        \<longrightarrow> find tz d zr path =
              (Call d path
                 # (if MatchString (exp tz) (last path)
                    then [Send d \<lparr>Path = path, Err = None\<rparr>] else [])
                 @ descents tz d path es @ fst (find_loop tz d others path),
               snd (find_loop tz d others path))
            \<and> (\<forall>e \<in> set es.
                  set (fst (find tz (Suc d) (snd e) (path @ [fst e])))
                    \<subseteq> set (fst (find tz d zr path))
                  \<and> path @ [fst e] \<in> set (visited (fst (find tz d zr path))))"
  proof
    assume a: "newDecompressor (last path) = (Some f, True) \<and> decompress f zr = (Some zr, None)
          \<and> tar_Next zr = headers es @ others \<and> all_return tz d path es"
    then have eq: "find tz d zr path =
           (Call d path # matched tz d path @ descents tz d path es
              @ fst (find_loop tz d others path),
            snd (find_loop tz d others path))"
      using find_entries [OF p] by blast
    have sub: "set (fst (find tz (Suc d) (snd e) (path @ [fst e])))
                    \<subseteq> set (fst (find tz d zr path))
                  \<and> path @ [fst e] \<in> set (visited (fst (find tz d zr path)))"
      if e: "e \<in> set es" for e
    proof -
      have "(fst e, snd e) \<in> set es" using e by simp
      from descents_entry [OF this, of tz d path]
      have s: "set (fst (find tz (Suc d) (snd e) (path @ [fst e])))
                    \<subseteq> set (fst (find tz d zr path))"
        by (auto simp: eq)
      moreover have "Call (Suc d) (path @ [fst e])
          \<in> set (fst (find tz (Suc d) (snd e) (path @ [fst e])))"
        by (rule find_first)
      ultimately show ?thesis by (auto simp: visited_iff)
    qed
    show "find tz d zr path =
              (Call d path
                 # (if MatchString (exp tz) (last path)
                    then [Send d \<lparr>Path = path, Err = None\<rparr>] else [])
                 @ descents tz d path es @ fst (find_loop tz d others path),
               snd (find_loop tz d others path))
            \<and> (\<forall>e \<in> set es.
                  set (fst (find tz (Suc d) (snd e) (path @ [fst e])))
                    \<subseteq> set (fst (find tz d zr path))
                  \<and> path @ [fst e] \<in> set (visited (fst (find tz d zr path))))"
      using eq sub by (simp add: matched_def)
  qed
  have 6: "newDecompressor (last path) = (Some f, True) \<and> decompress f zr = (Some zr, None)
          \<and> (tar_Next zr = headers es \<or> tar_Next zr = headers es @ EOF # later)
          \<and> all_return tz d path es
        \<longrightarrow> find tz d zr path =
              (Call d path
                 # (if MatchString (exp tz) (last path)
                    then [Send d \<lparr>Path = path, Err = None\<rparr>] else [])
                 @ descents tz d path es,
               Returned)"
  proof
    assume a: "newDecompressor (last path) = (Some f, True) \<and> decompress f zr = (Some zr, None)
          \<and> (tar_Next zr = headers es \<or> tar_Next zr = headers es @ EOF # later)
          \<and> all_return tz d path es"
    then have "tar_Next zr = headers es @ [] \<or> tar_Next zr = headers es @ EOF # later"
      by simp
    then show "find tz d zr path =
              (Call d path
                 # (if MatchString (exp tz) (last path)
                    then [Send d \<lparr>Path = path, Err = None\<rparr>] else [])
                 @ descents tz d path es,
               Returned)"
    proof
      assume "tar_Next zr = headers es @ []"
      from find_entries [OF p _ _ this, of f tz d] a show ?thesis
        by (simp add: matched_def)
    next
      assume "tar_Next zr = headers es @ EOF # later"
      from find_entries [OF p _ _ this, of f tz d] a show ?thesis
        by (simp add: matched_def)
    qed
  qed
  have 7: "newDecompressor (last path) = (Some f, True) \<and> decompress f zr = (Some zr, None)
          \<and> tar_Next zr = headers es @ Hdr n c # rest \<and> all_return tz d path es
        \<longrightarrow> fst (find tz d zr path) =
              Call d path
                 # (if MatchString (exp tz) (last path)
                    then [Send d \<lparr>Path = path, Err = None\<rparr>] else [])
                 @ descents tz d path es @ fst (find tz (Suc d) c (path @ [n]))
                 @ (if snd (find tz (Suc d) c (path @ [n])) = Panicked then []
                    else fst (find_loop tz d rest path))"
  proof
    assume a: "newDecompressor (last path) = (Some f, True) \<and> decompress f zr = (Some zr, None)
          \<and> tar_Next zr = headers es @ Hdr n c # rest \<and> all_return tz d path es"
    then have "find tz d zr path =
           (Call d path # matched tz d path @ descents tz d path es
              @ fst (find_loop tz d (Hdr n c # rest) path),
            snd (find_loop tz d (Hdr n c # rest) path))"
      using find_entries [OF p] by blast
    then show "fst (find tz d zr path) =
              Call d path
                 # (if MatchString (exp tz) (last path)
                    then [Send d \<lparr>Path = path, Err = None\<rparr>] else [])
                 @ descents tz d path es @ fst (find tz (Suc d) c (path @ [n]))
                 @ (if snd (find tz (Suc d) c (path @ [n])) = Panicked then []
                    else fst (find_loop tz d rest path))"
      by (simp add: matched_def find_loop_Hdr)
  qed
  show "(MatchString (exp tz) (last path)
        \<longrightarrow> Send d \<lparr>Path = path, Err = None\<rparr> \<in> set (fst (find tz d zr path)))
     \<and> (MatchString (exp tz) (last path) \<and> newDecompressor (last path) = (Some f, True)
          \<and> decompress f zr = (Some zr, None)
        \<longrightarrow> find tz d zr path =
              (Call d path # Send d \<lparr>Path = path, Err = None\<rparr> # fst (find_loop tz d (tar_Next zr) path),
               snd (find_loop tz d (tar_Next zr) path)))
     \<and> (newDecompressor (last path) = (Some f, True) \<and> decompress f zr = (Some zr, None)
          \<and> tar_Next zr = Hdr n c # rest
        \<longrightarrow> Call (Suc d) (path @ [n]) \<in> set (fst (find tz d zr path)))
     \<and> (\<not> snd (newDecompressor (last path))
        \<longrightarrow> find tz d zr path = (Call d path # matched tz d path, Returned)
            \<and> visited (fst (find tz d zr path)) = [path])
     \<and> (newDecompressor (last path) = (Some f, True) \<and> decompress f zr = (Some zr, None)
          \<and> tar_Next zr = headers es @ others \<and> all_return tz d path es
        \<longrightarrow> find tz d zr path =
              (Call d path
                 # (if MatchString (exp tz) (last path)
                    then [Send d \<lparr>Path = path, Err = None\<rparr>] else [])
                 @ descents tz d path es @ fst (find_loop tz d others path),
               snd (find_loop tz d others path))
            \<and> (\<forall>e \<in> set es.
                  set (fst (find tz (Suc d) (snd e) (path @ [fst e])))
                    \<subseteq> set (fst (find tz d zr path))
                  \<and> path @ [fst e] \<in> set (visited (fst (find tz d zr path)))))
     \<and> (newDecompressor (last path) = (Some f, True) \<and> decompress f zr = (Some zr, None)
          \<and> (tar_Next zr = headers es \<or> tar_Next zr = headers es @ EOF # later)
          \<and> all_return tz d path es
        \<longrightarrow> find tz d zr path =
              (Call d path
                 # (if MatchString (exp tz) (last path)
                    then [Send d \<lparr>Path = path, Err = None\<rparr>] else [])
                 @ descents tz d path es,
               Returned))
     \<and> (newDecompressor (last path) = (Some f, True) \<and> decompress f zr = (Some zr, None)
          \<and> tar_Next zr = headers es @ Hdr n c # rest \<and> all_return tz d path es
        \<longrightarrow> fst (find tz d zr path) =
              Call d path
                 # (if MatchString (exp tz) (last path)
                    then [Send d \<lparr>Path = path, Err = None\<rparr>] else [])
                 @ descents tz d path es @ fst (find tz (Suc d) c (path @ [n]))
                 @ (if snd (find tz (Suc d) c (path @ [n])) = Panicked then []
                    else fst (find_loop tz d rest path)))"
    by (intro conjI 1 2 3 4 5 6 7)
qed


theorem match_and_recursion_independent_witness:
  "MatchString (exp pattern_y) (last [''yearly.tar''])
   \<and> newDecompressor (last [''yearly.tar'']) = (Some Identity, True)
   \<and> decompress Identity a_tar = (Some a_tar, None)
   \<and> tar_Next a_tar = headers [(''x.txt'', plain), (''inner.tar.gz'', inner_tar_gz)]
   \<and> tar_Next a_tar = headers [(''x.txt'', plain)] @ Hdr ''inner.tar.gz'' inner_tar_gz # []
   \<and> all_return pattern_y 0 [''yearly.tar''] [(''x.txt'', plain), (''inner.tar.gz'', inner_tar_gz)]
   \<and> Send 0 \<lparr>Path = [''yearly.tar''], Err = None\<rparr> \<in> set (fst (find pattern_y 0 a_tar [''yearly.tar'']))
   \<and> find pattern_y 0 a_tar [''yearly.tar''] =
       ([Call 0 [''yearly.tar''], Send 0 \<lparr>Path = [''yearly.tar''], Err = None\<rparr>,
         Call 1 [''yearly.tar'', ''x.txt''],
         Call 1 [''yearly.tar'', ''inner.tar.gz''],
         Call 2 [''yearly.tar'', ''inner.tar.gz'', ''y.txt''],
         Send 2 \<lparr>Path = [''yearly.tar'', ''inner.tar.gz'', ''y.txt''], Err = None\<rparr>], Returned)
   \<and> [''yearly.tar'', ''inner.tar.gz''] \<in> set (visited (fst (find pattern_y 0 a_tar [''yearly.tar''])))
   \<and> set (fst (find pattern_y 1 inner_tar_gz [''yearly.tar'', ''inner.tar.gz'']))
       \<subseteq> set (fst (find pattern_y 0 a_tar [''yearly.tar'']))
   \<and> fst (find pattern_y 0 a_tar [''yearly.tar'']) =
       Call 0 [''yearly.tar''] # [Send 0 \<lparr>Path = [''yearly.tar''], Err = None\<rparr>]
         @ descents pattern_y 0 [''yearly.tar''] [(''x.txt'', plain)]
         @ fst (find pattern_y 1 inner_tar_gz [''yearly.tar'', ''inner.tar.gz''])
   \<and> Call 1 [''yearly.tar'', ''x.txt''] \<in> set (fst (find pattern_y 0 a_tar [''yearly.tar'']))
   \<and> snd (newDecompressor (last [''yearly.tar'', ''my.txt''])) = False
   \<and> find pattern_y 1 plain [''yearly.tar'', ''my.txt''] =
       ([Call 1 [''yearly.tar'', ''my.txt''],
         Send 1 \<lparr>Path = [''yearly.tar'', ''my.txt''], Err = None\<rparr>], Returned)
   \<and> visited (fst (find pattern_y 1 plain [''yearly.tar'', ''my.txt''])) = [[''yearly.tar'', ''my.txt'']]"
proof -
  let ?es = "[(''x.txt'', plain), (''inner.tar.gz'', inner_tar_gz)]"
  have m: "MatchString (exp pattern_y) (last [''yearly.tar''])" by code_simp
  have n: "newDecompressor (last [''yearly.tar'']) = (Some Identity, True)" by code_simp
  have z: "decompress Identity a_tar = (Some a_tar, None)" by simp
  have t: "tar_Next a_tar = Hdr ''x.txt'' plain # [Hdr ''inner.tar.gz'' inner_tar_gz]"
    by (simp add: a_tar_def)
  have t2: "tar_Next a_tar = headers ?es" by (simp add: a_tar_def headers_def)
  have t3: "tar_Next a_tar = headers [(''x.txt'', plain)] @ Hdr ''inner.tar.gz'' inner_tar_gz # []"
    by (simp add: a_tar_def headers_def)
  have a: "all_return pattern_y 0 [''yearly.tar''] ?es" by code_simp
  have a1: "all_return pattern_y 0 [''yearly.tar''] [(''x.txt'', plain)]" by code_simp
  have ds: "descents pattern_y 0 [''yearly.tar''] ?es =
      [Call 1 [''yearly.tar'', ''x.txt''],
       Call 1 [''yearly.tar'', ''inner.tar.gz''],
       Call 2 [''yearly.tar'', ''inner.tar.gz'', ''y.txt''],
       Send 2 \<lparr>Path = [''yearly.tar'', ''inner.tar.gz'', ''y.txt''], Err = None\<rparr>]"
    by code_simp
  have np: "snd (find pattern_y (Suc 0) inner_tar_gz ([''yearly.tar''] @ [''inner.tar.gz''])) \<noteq> Panicked"
    by code_simp
  have l: "\<not> snd (newDecompressor (last [''yearly.tar'', ''my.txt'']))" by code_simp
  have ml: "matched pattern_y 1 [''yearly.tar'', ''my.txt'']
      = [Send 1 \<lparr>Path = [''yearly.tar'', ''my.txt''], Err = None\<rparr>]" by code_simp
  note T1 = match_and_recursion_independent [where path = "[''yearly.tar'']" and tz = pattern_y and d = 0
      and zr = a_tar and f = Identity and n = "''x.txt''" and c = plain
      and rest = "[Hdr ''inner.tar.gz'' inner_tar_gz]" and es = ?es and others = "[]"
      and later = "[]"]
  note T3 = match_and_recursion_independent [where path = "[''yearly.tar'']" and tz = pattern_y and d = 0
      and zr = a_tar and f = Identity and n = "''inner.tar.gz''" and c = inner_tar_gz
      and rest = "[]" and es = "[(''x.txt'', plain)]"]
  note T2 = match_and_recursion_independent [where path = "[''yearly.tar'', ''my.txt'']"
      and tz = pattern_y and d = 1 and zr = plain]
  have c1: "Send 0 \<lparr>Path = [''yearly.tar''], Err = None\<rparr> \<in> set (fst (find pattern_y 0 a_tar [''yearly.tar'']))"
    using T1 m by blast
  have "find pattern_y 0 a_tar [''yearly.tar''] =
          (Call 0 [''yearly.tar'']
             # (if MatchString (exp pattern_y) (last [''yearly.tar''])
                then [Send 0 \<lparr>Path = [''yearly.tar''], Err = None\<rparr>] else [])
             @ descents pattern_y 0 [''yearly.tar''] ?es, Returned)"
    using T1 n z t2 a by blast
  then have c2: "find pattern_y 0 a_tar [''yearly.tar''] =
       ([Call 0 [''yearly.tar''], Send 0 \<lparr>Path = [''yearly.tar''], Err = None\<rparr>,
         Call 1 [''yearly.tar'', ''x.txt''],
         Call 1 [''yearly.tar'', ''inner.tar.gz''],
         Call 2 [''yearly.tar'', ''inner.tar.gz'', ''y.txt''],
         Send 2 \<lparr>Path = [''yearly.tar'', ''inner.tar.gz'', ''y.txt''], Err = None\<rparr>], Returned)"
    using m by (simp only: ds if_True append_Cons append_Nil)
  have t2': "tar_Next a_tar = headers ?es @ []" using t2 by simp
  have e2: "(''inner.tar.gz'', inner_tar_gz) \<in> set ?es" by simp
  have all5: "\<forall>e \<in> set ?es.
                  set (fst (find pattern_y (Suc 0) (snd e) ([''yearly.tar''] @ [fst e])))
                    \<subseteq> set (fst (find pattern_y 0 a_tar [''yearly.tar'']))
                  \<and> [''yearly.tar''] @ [fst e] \<in> set (visited (fst (find pattern_y 0 a_tar [''yearly.tar''])))"
    using T1 n z t2' a by blast
  from all5 e2 have
    "set (fst (find pattern_y (Suc 0) (snd (''inner.tar.gz'', inner_tar_gz))
            ([''yearly.tar''] @ [fst (''inner.tar.gz'', inner_tar_gz)])))
       \<subseteq> set (fst (find pattern_y 0 a_tar [''yearly.tar'']))
     \<and> [''yearly.tar''] @ [fst (''inner.tar.gz'', inner_tar_gz)]
       \<in> set (visited (fst (find pattern_y 0 a_tar [''yearly.tar''])))"
    by blast
  then have c6: "[''yearly.tar'', ''inner.tar.gz''] \<in> set (visited (fst (find pattern_y 0 a_tar [''yearly.tar''])))"
    and c7: "set (fst (find pattern_y 1 inner_tar_gz [''yearly.tar'', ''inner.tar.gz'']))
       \<subseteq> set (fst (find pattern_y 0 a_tar [''yearly.tar'']))"
    by simp_all
  have "fst (find pattern_y 0 a_tar [''yearly.tar'']) =
              Call 0 [''yearly.tar'']
                 # (if MatchString (exp pattern_y) (last [''yearly.tar''])
                    then [Send 0 \<lparr>Path = [''yearly.tar''], Err = None\<rparr>] else [])
                 @ descents pattern_y 0 [''yearly.tar''] [(''x.txt'', plain)]
                 @ fst (find pattern_y (Suc 0) inner_tar_gz ([''yearly.tar''] @ [''inner.tar.gz'']))
                 @ (if snd (find pattern_y (Suc 0) inner_tar_gz ([''yearly.tar''] @ [''inner.tar.gz''])) = Panicked
                    then [] else fst (find_loop pattern_y 0 [] [''yearly.tar'']))"
    using T3 n z t3 a1 by blast
  then have c8: "fst (find pattern_y 0 a_tar [''yearly.tar'']) =
       Call 0 [''yearly.tar''] # [Send 0 \<lparr>Path = [''yearly.tar''], Err = None\<rparr>]
         @ descents pattern_y 0 [''yearly.tar''] [(''x.txt'', plain)]
         @ fst (find pattern_y 1 inner_tar_gz [''yearly.tar'', ''inner.tar.gz''])"
    using m np by simp
  have "Call (Suc 0) ([''yearly.tar''] @ [''x.txt'']) \<in> set (fst (find pattern_y 0 a_tar [''yearly.tar'']))"
    using T1 n z t by blast
  then have c3: "Call 1 [''yearly.tar'', ''x.txt''] \<in> set (fst (find pattern_y 0 a_tar [''yearly.tar'']))"
    by simp
  have "find pattern_y 1 plain [''yearly.tar'', ''my.txt'']
      = (Call 1 [''yearly.tar'', ''my.txt''] # matched pattern_y 1 [''yearly.tar'', ''my.txt''], Returned)"
    using T2 l by blast
  then have c4: "find pattern_y 1 plain [''yearly.tar'', ''my.txt''] =
       ([Call 1 [''yearly.tar'', ''my.txt''],
         Send 1 \<lparr>Path = [''yearly.tar'', ''my.txt''], Err = None\<rparr>], Returned)"
    by (simp only: ml)
  have c5: "visited (fst (find pattern_y 1 plain [''yearly.tar'', ''my.txt''])) = [[''yearly.tar'', ''my.txt'']]"
    using T2 l by blast
  have l': "snd (newDecompressor (last [''yearly.tar'', ''my.txt''])) = False" using l by simp
  show ?thesis by (intro conjI m n z t2 t3 a c1 c2 c6 c7 c8 c3 l' c4 c5)
qed

section \<open>The chains and their storage\<close>

lemma extend_allocates:
  assumes "valid_slice h p"
  shows "extend spare h p name =
           Some (h @ [elems h p @ name # replicate spare []],
                 \<lparr>arr = length h, len = Suc (len p), cap = Suc (len p) + spare\<rparr>)"
  using assms by (simp add: extend_def slice3_def append1_def valid_slice_def elems_def)

lemma extend_fresh:
  assumes "valid_slice h p"
  shows "\<exists>h' p'. extend spare h p name = Some (h', p') \<and> arr p' = length h
           \<and> take (length h) h' = h \<and> elems h' p' = elems h p @ [name] \<and> valid_slice h' p'"
  using assms
  by (simp add: extend_allocates) (simp add: valid_slice_def elems_def)

lemma extend_frame:
  assumes "valid_slice h p" and "valid_slice h q" and "extend spare h p name = Some (h', p')"
  shows "arr p' \<noteq> arr q \<and> elems h' q = elems h q \<and> valid_slice h' q"
  using assms
  by (auto simp: extend_allocates valid_slice_def elems_def nth_append)

lemma findPath_chain_length:
  assumes "ev \<in> set (fst (findPath tz fs root))"
  shows "length (chain ev) = Suc (depth ev)"
proof -
  from assms have "ev = Send 0 \<lparr>Path = [root], Err = snd (os_Open fs root)\<rparr>
      \<or> ev \<in> set (fst (find tz 0 (fst (os_Open fs root)) [root]))"
    by (auto simp: findPath_events split: option.splits)
  then show ?thesis
  proof
    assume "ev = Send 0 \<lparr>Path = [root], Err = snd (os_Open fs root)\<rparr>"
    then show ?thesis by simp
  next
    assume "ev \<in> set (fst (find tz 0 (fst (os_Open fs root)) [root]))"
    then have "extends 0 [root] ev" using find_extends(1) by blast
    then show ?thesis by (auto simp: extends_def)
  qed
qed

lemma extends_child:
  assumes "extends d path (Call (Suc d) c)"
  shows "\<exists>n. c = path @ [n]"
proof -
  from assms have l: "length c = Suc (length path)" and t: "take (length path) c = path"
    by (auto simp: extends_def)
  have "length (drop (length path) c) = 1" using l by simp
  then obtain n where "drop (length path) c = [n]"
    by (cases "drop (length path) c") auto
  then have "take (length path) c @ [n] = c" by (metis append_take_drop_id)
  then show ?thesis using t by auto
qed

lemma heap_grown:
  assumes "take (length h) h' = h" and "valid_slice h q"
  shows "valid_slice h' q \<and> elems h' q = elems h q"
proof -
  have "length (take (length h) h') = length h" using assms(1) by simp
  then have "length h \<le> length h'" by (simp add: min_def split: if_splits)
  moreover have "h' ! arr q = take (length h) h' ! arr q"
    using assms(2) by (simp add: valid_slice_def)
  then have "h' ! arr q = h ! arr q" using assms(1) by simp
  ultimately show ?thesis using assms(2) by (simp add: valid_slice_def elems_def)
qed

lemma extend_siblings:
  assumes v: "valid_slice h p"
    and e1: "extend s1 h p n1 = Some (h1, p1)"
    and g: "take (length h1) h2 = h1"
    and e2: "extend s2 h2 p n2 = Some (h3, p2)"
  shows "arr p1 \<noteq> arr p2 \<and> elems h3 p1 = elems h p @ [n1] \<and> elems h3 p2 = elems h p @ [n2]"
proof -
  from extend_fresh [OF v, of s1 n1] e1
  have f1: "take (length h) h1 = h" "elems h1 p1 = elems h p @ [n1]" "valid_slice h1 p1"
    by auto
  from heap_grown [OF f1(1) v] have v1: "valid_slice h1 p" "elems h1 p = elems h p" by auto
  from heap_grown [OF g v1(1)] have v2: "valid_slice h2 p" "elems h2 p = elems h1 p" by auto
  from heap_grown [OF g f1(3)] have w2: "valid_slice h2 p1" "elems h2 p1 = elems h1 p1" by auto
  from extend_fresh [OF v2(1), of s2 n2] e2
  have f2: "elems h3 p2 = elems h2 p @ [n2]" by auto
  from extend_frame [OF v2(1) w2(1) e2]
  have "arr p2 \<noteq> arr p1" "elems h3 p1 = elems h2 p1" by auto
  then show ?thesis using f1(2) f2 v1(2) v2(2) w2(2) by simp
qed

text \<open>
  Claim C8. Every chain with which \<open>find\<close> is entered and every chain of a Result sent,
  in the descent of a root, has one name more than its depth of nesting, so at least one
  name, and \<open>D + 1\<close> names at depth \<open>D\<close>. Every event of a call of \<open>find\<close> carries a chain
  that extends the call's chain by one name per level of nesting, and a recursive call
  made by the call itself is entered with the call's chain and one more name. The chain
  of a root is a valid slice with the root as its only element. The chain
  built on line 80 for a recursive call lies in an array allocated for it: the array is
  new, no array allocated before is written, the new chain reads as the caller's chain
  with the entry's name added, and every slice that existed before (the caller's chain,
  the chains of earlier calls) keeps its elements and has another array. So the chains
  built for two entries of one container lie in different arrays, and the second leaves
  the first as it was, whatever was allocated in between.
\<close>

theorem path_chain_invariant:
  "(\<forall>ev \<in> set (fst (findPath tz fs root)). chain ev \<noteq> [] \<and> length (chain ev) = Suc (depth ev))
   \<and> (\<forall>ev \<in> set (fst (find tz d zr path)). extends d path ev)
   \<and> (\<forall>c. Call (Suc d) c \<in> set (fst (find tz d zr path)) \<longrightarrow> (\<exists>n. c = path @ [n]))
   \<and> valid_slice (fst (new_chain h root)) (snd (new_chain h root))
   \<and> elems (fst (new_chain h root)) (snd (new_chain h root)) = [root]
   \<and> (valid_slice h p \<longrightarrow>
        (\<exists>h' p'. extend spare h p name = Some (h', p') \<and> arr p' = length h
           \<and> take (length h) h' = h \<and> elems h' p' = elems h p @ [name] \<and> valid_slice h' p'))
   \<and> (valid_slice h p \<and> valid_slice h q \<longrightarrow>
        (\<forall>h' p'. extend spare h p name = Some (h', p')
           \<longrightarrow> arr p' \<noteq> arr q \<and> elems h' q = elems h q \<and> valid_slice h' q))
   \<and> (valid_slice h p \<and> extend spare h p name = Some (h1, p1) \<and> take (length h1) h2 = h1
        \<and> extend spare' h2 p name' = Some (h3, p2)
        \<longrightarrow> arr p1 \<noteq> arr p2 \<and> elems h3 p1 = elems h p @ [name]
            \<and> elems h3 p2 = elems h p @ [name'])"
proof (intro conjI)
  show "\<forall>ev \<in> set (fst (findPath tz fs root)). chain ev \<noteq> [] \<and> length (chain ev) = Suc (depth ev)"
    using findPath_chain_length by fastforce
  show "\<forall>ev \<in> set (fst (find tz d zr path)). extends d path ev"
    by (rule find_extends(1))
  show "\<forall>c. Call (Suc d) c \<in> set (fst (find tz d zr path)) \<longrightarrow> (\<exists>n. c = path @ [n])"
    using find_extends(1) extends_child by blast
  show "valid_slice (fst (new_chain h root)) (snd (new_chain h root))"
    by (simp add: new_chain_def valid_slice_def)
  show "elems (fst (new_chain h root)) (snd (new_chain h root)) = [root]"
    by (simp add: new_chain_def elems_def)
  show "valid_slice h p \<longrightarrow>
        (\<exists>h' p'. extend spare h p name = Some (h', p') \<and> arr p' = length h
           \<and> take (length h) h' = h \<and> elems h' p' = elems h p @ [name] \<and> valid_slice h' p')"
    using extend_fresh by blast
  show "valid_slice h p \<and> valid_slice h q \<longrightarrow>
        (\<forall>h' p'. extend spare h p name = Some (h', p')
           \<longrightarrow> arr p' \<noteq> arr q \<and> elems h' q = elems h q \<and> valid_slice h' q)"
    using extend_frame by blast
  show "valid_slice h p \<and> extend spare h p name = Some (h1, p1) \<and> take (length h1) h2 = h1
        \<and> extend spare' h2 p name' = Some (h3, p2)
        \<longrightarrow> arr p1 \<noteq> arr p2 \<and> elems h3 p1 = elems h p @ [name]
            \<and> elems h3 p2 = elems h p @ [name']"
    using extend_siblings by blast
qed

theorem path_chain_invariant_witness:
  "Call 2 [''a.tar'', ''inner.tar.gz'', ''y.txt''] \<in> set (fst (findPath pattern_y disk ''a.tar''))
   \<and> length [''a.tar'', ''inner.tar.gz'', ''y.txt''] = Suc 2
   \<and> Call 1 [''a.tar'', ''x.txt''] \<in> set (fst (find pattern_y 0 a_tar [''a.tar'']))
   \<and> extends 0 [''a.tar''] (Call 1 [''a.tar'', ''x.txt''])
   \<and> new_chain [] ''a.tar'' = ([[''a.tar'']], \<lparr>arr = 0, len = 1, cap = 1\<rparr>)
   \<and> valid_slice [[''a.tar'']] \<lparr>arr = 0, len = 1, cap = 1\<rparr>
   \<and> extend 1 [[''a.tar'']] \<lparr>arr = 0, len = 1, cap = 1\<rparr> ''x.txt''
       = Some ([[''a.tar''], [''a.tar'', ''x.txt'', []]], \<lparr>arr = 1, len = 2, cap = 3\<rparr>)
   \<and> extend 0 [[''a.tar''], [''a.tar'', ''x.txt'', []]] \<lparr>arr = 0, len = 1, cap = 1\<rparr> ''inner.tar.gz''
       = Some ([[''a.tar''], [''a.tar'', ''x.txt'', []], [''a.tar'', ''inner.tar.gz'']],
               \<lparr>arr = 2, len = 2, cap = 2\<rparr>)
   \<and> elems [[''a.tar''], [''a.tar'', ''x.txt'', []], [''a.tar'', ''inner.tar.gz'']]
         \<lparr>arr = 1, len = 2, cap = 3\<rparr> = [''a.tar'', ''x.txt'']
   \<and> elems [[''a.tar''], [''a.tar'', ''x.txt'', []], [''a.tar'', ''inner.tar.gz'']]
         \<lparr>arr = 2, len = 2, cap = 2\<rparr> = [''a.tar'', ''inner.tar.gz'']
   \<and> elems [[''a.tar''], [''a.tar'', ''x.txt'', []], [''a.tar'', ''inner.tar.gz'']]
         \<lparr>arr = 0, len = 1, cap = 1\<rparr> = [''a.tar'']"
proof -
  let ?h = "[[''a.tar'']]" and ?p = "\<lparr>arr = 0, len = 1, cap = 1\<rparr>"
  let ?h1 = "[[''a.tar''], [''a.tar'', ''x.txt'', []]]" and ?p1 = "\<lparr>arr = 1, len = 2, cap = 3\<rparr>"
  let ?h3 = "[[''a.tar''], [''a.tar'', ''x.txt'', []], [''a.tar'', ''inner.tar.gz'']]"
  let ?p2 = "\<lparr>arr = 2, len = 2, cap = 2\<rparr>"
  note T = path_chain_invariant [of pattern_y disk "''a.tar''" 0 a_tar "[''a.tar'']"
      ?h ?p 1 "''x.txt''" ?p ?h1 ?p1 ?h1 0 "''inner.tar.gz''" ?h3 ?p2]
  have c: "Call 2 [''a.tar'', ''inner.tar.gz'', ''y.txt''] \<in> set (fst (findPath pattern_y disk ''a.tar''))"
    by code_simp
  have c1: "Call 1 [''a.tar'', ''x.txt''] \<in> set (fst (find pattern_y 0 a_tar [''a.tar'']))"
    by code_simp
  have nc: "new_chain [] ''a.tar'' = (?h, ?p)" by (simp add: new_chain_def)
  have v: "valid_slice ?h ?p" by (simp add: valid_slice_def)
  have e1: "extend 1 ?h ?p ''x.txt'' = Some (?h1, ?p1)"
    by (simp add: extend_def slice3_def append1_def)
  have e2: "extend 0 ?h1 ?p ''inner.tar.gz'' = Some (?h3, ?p2)"
    by (simp add: extend_def slice3_def append1_def)
  have g: "take (length ?h1) ?h1 = ?h1" by simp
  from T c have "length (chain (Call 2 [''a.tar'', ''inner.tar.gz'', ''y.txt'']))
      = Suc (depth (Call 2 [''a.tar'', ''inner.tar.gz'', ''y.txt'']))" by blast
  then have l: "length [''a.tar'', ''inner.tar.gz'', ''y.txt''] = Suc 2" by simp
  from T c1 have x: "extends 0 [''a.tar''] (Call 1 [''a.tar'', ''x.txt''])" by blast
  from T v e1 g e2 have s: "arr ?p1 \<noteq> arr ?p2 \<and> elems ?h3 ?p1 = elems ?h ?p @ [''x.txt'']
      \<and> elems ?h3 ?p2 = elems ?h ?p @ [''inner.tar.gz'']" by blast
  have ep: "elems ?h ?p = [''a.tar'']" by (simp add: elems_def)
  from s ep have s1: "elems ?h3 ?p1 = [''a.tar'', ''x.txt'']"
    and s2: "elems ?h3 ?p2 = [''a.tar'', ''inner.tar.gz'']" by simp_all
  have s0: "elems ?h3 ?p = [''a.tar'']" by (simp add: elems_def)
  show ?thesis by (intro conjI c l c1 x nc v e1 e2 s1 s2 s0)
qed


end
